theory Spec2Isabelle
  imports Main
begin

section \<open>JavaScript values\<close>

text \<open>
  The values that flow through \<^verbatim>\<open>src/index.ts\<close>: errors, request arguments and results
  are all typed \<^verbatim>\<open>any\<close>. An object is given by the values its property reads yield.
  \<open>JSignal n\<close> is a reference to the \<^verbatim>\<open>AbortSignal\<close> of controller \<open>n\<close>. Numbers are
  carried as integers; no operation of the library computes with them.

  A function value carries its \<^verbatim>\<open>name\<close> property and its behaviour when it is called
  with the object \<^verbatim>\<open>{ signal }\<close> (the only way the library calls a function it was
  handed as an argument). The caller's code runs inside the library's call, so it can
  act on the coordinator \<^verbatim>\<open>c\<close> it was handed to before it returns: the behaviour is the
  list of those actions, in order (\<open>CallsCoordinator args\<close> is \<^verbatim>\<open>c(...args)\<close>,
  \<open>CallsAbort\<close> is \<^verbatim>\<open>c.abort()\<close>), and then either a throw (\<open>Inl\<close>) or the returned
  argument list (\<open>Inr\<close>).
\<close>

datatype jsval =
    Undefined
  | Null
  | JBool bool
  | JNum int
  | JStr string
  | JObj "(string \<times> jsval) list"
  | JSignal nat
  | JFun string "nat \<Rightarrow> effect list \<times> (jsval + jsval list)"
and effect =
    CallsCoordinator "jsval list"
  | CallsAbort

text \<open>\<^verbatim>\<open>new DOMException('Aborted', 'AbortError')\<close> and the engine's \<^verbatim>\<open>TypeError\<close>
  (whose message text is engine specific and left out).\<close>

definition abortError :: jsval where
  "abortError = JObj [(''name'', JStr ''AbortError''), (''message'', JStr ''Aborted'')]"

definition typeError :: jsval where
  "typeError = JObj [(''name'', JStr ''TypeError'')]"

text \<open>The engine's \<^verbatim>\<open>RangeError\<close>, thrown when the call stack is used up.\<close>

definition rangeError :: jsval where
  "rangeError = JObj [(''name'', JStr ''RangeError'')]"

text \<open>
  The property read \<^verbatim>\<open>error.name\<close>. On \<^verbatim>\<open>null\<close> and \<^verbatim>\<open>undefined\<close> it throws a
  \<^verbatim>\<open>TypeError\<close>; on a primitive it reads the wrapper prototype, which has no \<^verbatim>\<open>name\<close>;
  a function has a \<^verbatim>\<open>name\<close> of its own; an \<^verbatim>\<open>AbortSignal\<close> has none; a property
  that an object lacks reads as \<^verbatim>\<open>undefined\<close>.
\<close>

fun get_name :: "jsval \<Rightarrow> jsval + jsval" where
  "get_name Undefined = Inl typeError"
| "get_name Null = Inl typeError"
| "get_name (JBool b) = Inr Undefined"
| "get_name (JNum n) = Inr Undefined"
| "get_name (JStr s) = Inr Undefined"
| "get_name (JObj ps) = (case map_of ps ''name'' of Some v \<Rightarrow> Inr v | None \<Rightarrow> Inr Undefined)"
| "get_name (JSignal n) = Inr Undefined"
| "get_name (JFun nm f) = Inr (JStr nm)"

text \<open>\<^verbatim>\<open>v === 'AbortError'\<close>: strict equality with a string literal holds for that string
  primitive only.\<close>

fun strict_eq_str :: "jsval \<Rightarrow> string \<Rightarrow> bool" where
  "strict_eq_str (JStr s) t = (s = t)"
| "strict_eq_str _ t = False"

text \<open>\<^verbatim>\<open>export const isAbortError = (error: any) => { return error.name === 'AbortError'; }\<close>\<close>

definition isAbortError :: "jsval \<Rightarrow> jsval + bool" where
  "isAbortError error =
     (case get_name error of
        Inl thrown \<Rightarrow> Inl thrown
      | Inr nm \<Rightarrow> Inr (strict_eq_str nm ''AbortError''))"

section \<open>The heap: abort controllers and promises\<close>

text \<open>
  The only listener the library registers on a signal is the closure of line 47,
  \<^verbatim>\<open>() => { reject(new DOMException('Aborted', 'AbortError')) }\<close>, which holds the
  \<^verbatim>\<open>reject\<close> capability of one promise. Listeners that the caller's code adds to a
  signal it was handed are not part of the model: what a callback does to the
  coordinator it does while it runs (see \<open>effect\<close> above).
\<close>

datatype listener = RejectOnAbort nat

record abort_signal =
  aborted :: bool
  listeners :: "listener list"

datatype settle = Pending | Resolved jsval | Rejected jsval

text \<open>
  What the library does that can be seen from outside, in the order it does it: the
  calls it makes and the assignment to the coordinator's \<^verbatim>\<open>cleanup\<close> variable.
\<close>

datatype event =
    Constructed nat
  | AbortCalled nat
  | CleanupAssigned nat
  | BuilderCalled nat
  | Invoked nat "jsval list"
  | RequestCalled "jsval list"

text \<open>
  Controllers and promises live in a store indexed by allocation order. \<open>cleanup\<close> is the
  closure variable of one coordinator: \<open>None\<close> is \<^verbatim>\<open>undefined\<close>, \<open>Some n\<close> is the closure
  \<^verbatim>\<open>() => { abortAbleReQuest.abort() }\<close> over the wrapper instance with controller \<open>n\<close>.
\<close>

record world =
  sigs :: "nat \<Rightarrow> abort_signal"
  next_sig :: nat
  proms :: "nat \<Rightarrow> settle"
  next_prom :: nat
  cleanup :: "nat option"
  log :: "event list"

definition emit :: "event \<Rightarrow> world \<Rightarrow> world" where
  "emit e w = w\<lparr>log := log w @ [e]\<rparr>"

subsection \<open>Promises\<close>

text \<open>The \<^verbatim>\<open>resolve\<close> and \<^verbatim>\<open>reject\<close> capabilities of a promise: the first call settles
  it, every later call does nothing.\<close>

definition settle_promise :: "nat \<Rightarrow> settle \<Rightarrow> world \<Rightarrow> world" where
  "settle_promise p outcome w =
     (if proms w p = Pending then w\<lparr>proms := (proms w)(p := outcome)\<rparr> else w)"

definition resolve :: "nat \<Rightarrow> jsval \<Rightarrow> world \<Rightarrow> world" where
  "resolve p v = settle_promise p (Resolved v)"

definition reject :: "nat \<Rightarrow> jsval \<Rightarrow> world \<Rightarrow> world" where
  "reject p e = settle_promise p (Rejected e)"

definition alloc_promise :: "settle \<Rightarrow> world \<Rightarrow> nat \<times> world" where
  "alloc_promise st w =
     (next_prom w, w\<lparr>proms := (proms w)(next_prom w := st), next_prom := Suc (next_prom w)\<rparr>)"

text \<open>\<^verbatim>\<open>Promise.reject(e)\<close>\<close>

definition promise_reject :: "jsval \<Rightarrow> world \<Rightarrow> nat \<times> world" where
  "promise_reject e w = alloc_promise (Rejected e) w"

text \<open>\<^verbatim>\<open>new Promise(executor)\<close>: the executor runs at once, and what it throws rejects
  the promise instead of leaving the constructor.\<close>

definition new_promise ::
  "(nat \<Rightarrow> world \<Rightarrow> (jsval + unit) \<times> world) \<Rightarrow> world \<Rightarrow> nat \<times> world" where
  "new_promise executor w =
     (let (p, w1) = alloc_promise Pending w
      in case executor p w1 of
           (Inl thrown, w2) \<Rightarrow> (p, reject p thrown w2)
         | (Inr u, w2) \<Rightarrow> (p, w2))"

subsection \<open>Abort controllers\<close>

fun run_listener :: "listener \<Rightarrow> world \<Rightarrow> world" where
  "run_listener (RejectOnAbort p) w = reject p abortError w"

text \<open>\<^verbatim>\<open>new AbortController()\<close>\<close>

definition new_controller :: "world \<Rightarrow> nat \<times> world" where
  "new_controller w =
     (next_sig w,
      w\<lparr>sigs := (sigs w)(next_sig w := \<lparr>aborted = False, listeners = []\<rparr>),
        next_sig := Suc (next_sig w)\<rparr>)"

text \<open>\<^verbatim>\<open>abortControl.abort()\<close>: nothing on a signal that is aborted already; otherwise
  the flag is set and the listeners run, in the order they were added, before the call
  returns.\<close>

definition controller_abort :: "nat \<Rightarrow> world \<Rightarrow> world" where
  "controller_abort sid w =
     (if aborted (sigs w sid) then w
      else fold run_listener (listeners (sigs w sid))
             (w\<lparr>sigs := (sigs w)(sid := (sigs w sid)\<lparr>aborted := True\<rparr>)\<rparr>))"

text \<open>\<^verbatim>\<open>signal.addEventListener('abort', l)\<close>\<close>

definition addEventListener :: "nat \<Rightarrow> listener \<Rightarrow> world \<Rightarrow> world" where
  "addEventListener sid l w =
     w\<lparr>sigs := (sigs w)(sid := (sigs w sid)\<lparr>listeners := listeners (sigs w sid) @ [l]\<rparr>)\<rparr>"

section \<open>createAbortAbleRequest\<close>

text \<open>
  The underlying request is a parameter: called with an argument list it acts on the
  coordinator, as a builder can, and then either throws or returns a promise. The
  reactions registered on that promise (lines 51 to 56) run later, when the environment
  settles it: they are the actions \<open>Fulfil\<close> and \<open>Fail\<close> below.
\<close>

datatype req_outcome = Throws jsval | ReturnsPromise

type_synonym request = "jsval list \<Rightarrow> effect list \<times> req_outcome"

text \<open>
  How the actions of a callback are carried out is a parameter of every function that
  calls one: it is fixed further down, once the coordinator they act on is defined. The
  result is \<open>Inl\<close> when one of the actions throws; the callback then throws the same.
\<close>

type_synonym exec = "effect list \<Rightarrow> world \<Rightarrow> (jsval + unit) \<times> world"

text \<open>Line 37 to 41 and 59 to 61: the wrapper instance is its controller.\<close>

definition createAbortAbleRequest :: "world \<Rightarrow> nat \<times> world" where
  "createAbortAbleRequest w = (let (sid, w1) = new_controller w in (sid, emit (Constructed sid) w1))"

text \<open>Line 39 to 41, \<^verbatim>\<open>abort\<close>.\<close>

definition abort :: "nat \<Rightarrow> world \<Rightarrow> (jsval + unit) \<times> world" where
  "abort sid w = (Inr (), controller_abort sid (emit (AbortCalled sid) w))"

text \<open>Line 46 to 57, the executor handed to \<^verbatim>\<open>new Promise\<close>: the listener is added
  first, then the request is called; it runs, acting on the coordinator, and throws or
  returns.\<close>

definition executor ::
  "exec \<Rightarrow> request \<Rightarrow> nat \<Rightarrow> jsval list \<Rightarrow> nat \<Rightarrow> world \<Rightarrow> (jsval + unit) \<times> world" where
  "executor exec request sid arg p w =
     (let w1 = addEventListener sid (RejectOnAbort p) w;
          w2 = emit (RequestCalled arg) w1
      in case exec (fst (request arg)) w2 of
           (Inl thrown, w3) \<Rightarrow> (Inl thrown, w3)
         | (Inr u, w3) \<Rightarrow>
             (case snd (request arg) of
                Throws e \<Rightarrow> (Inl e, w3)
              | ReturnsPromise \<Rightarrow> (Inr (), w3)))"

text \<open>Line 43 to 58, \<^verbatim>\<open>fun\<close>: the call of the wrapper instance.\<close>

definition fun_call :: "exec \<Rightarrow> request \<Rightarrow> nat \<Rightarrow> jsval list \<Rightarrow> world \<Rightarrow> nat \<times> world" where
  "fun_call exec request sid arg w0 =
     (let w = emit (Invoked sid arg) w0
      in if aborted (sigs w sid) then promise_reject abortError w
         else new_promise (executor exec request sid arg) w)"

section \<open>createAutoAbortExpiredRequest\<close>

text \<open>Line 71: \<^verbatim>\<open>let cleanup: () => void;\<close> starts \<^verbatim>\<open>undefined\<close>.\<close>

definition createAutoAbortExpiredRequest :: "world \<Rightarrow> world" where
  "createAutoAbortExpiredRequest w = w\<lparr>cleanup := None\<rparr>"

definition empty_heap :: world where
  "empty_heap =
     \<lparr>sigs = (\<lambda>n. \<lparr>aborted = False, listeners = []\<rparr>), next_sig = 0,
      proms = (\<lambda>n. Pending), next_prom = 0, cleanup = None, log = []\<rparr>"

text \<open>\<^verbatim>\<open>arg[0]\<close> reads \<^verbatim>\<open>undefined\<close> on an empty argument list.\<close>

definition arg0 :: "jsval list \<Rightarrow> jsval" where
  "arg0 arg = (case arg of [] \<Rightarrow> Undefined | a # rest \<Rightarrow> a)"

text \<open>\<^verbatim>\<open>typeof v === 'function'\<close>\<close>

fun is_function :: "jsval \<Rightarrow> bool" where
  "is_function (JFun nm f) = True"
| "is_function _ = False"

text \<open>Calling a value with \<^verbatim>\<open>{ signal }\<close>: the function runs, acting on the coordinator,
  and throws or returns; a value that is no function cannot be called.\<close>

fun call_with_signal :: "exec \<Rightarrow> jsval \<Rightarrow> nat \<Rightarrow> world \<Rightarrow> (jsval + jsval list) \<times> world" where
  "call_with_signal exec (JFun nm f) sid w =
     (case exec (fst (f sid)) w of
        (Inl thrown, w1) \<Rightarrow> (Inl thrown, w1)
      | (Inr u, w1) \<Rightarrow> (snd (f sid), w1))"
| "call_with_signal exec Undefined sid w = (Inl typeError, w)"
| "call_with_signal exec Null sid w = (Inl typeError, w)"
| "call_with_signal exec (JBool b) sid w = (Inl typeError, w)"
| "call_with_signal exec (JNum i) sid w = (Inl typeError, w)"
| "call_with_signal exec (JStr s) sid w = (Inl typeError, w)"
| "call_with_signal exec (JObj ps) sid w = (Inl typeError, w)"
| "call_with_signal exec (JSignal k) sid w = (Inl typeError, w)"

text \<open>Line 86 to 93, \<^verbatim>\<open>getArg\<close>.\<close>

definition getArg :: "exec \<Rightarrow> nat \<Rightarrow> jsval list \<Rightarrow> world \<Rightarrow> (jsval + jsval list) \<times> world" where
  "getArg exec sid arg w =
     (if is_function (arg0 arg) \<and> length arg = 1
      then call_with_signal exec (arg0 arg) sid (emit (BuilderCalled sid) w)
      else (Inr arg, w))"

text \<open>Line 82 to 108, the coordinator's call. A thrown value leaves the call as \<open>Inl\<close>;
  what was written to the heap before the throw stays written.\<close>

definition autoAbortExpiredRequest ::
  "exec \<Rightarrow> request \<Rightarrow> jsval list \<Rightarrow> world \<Rightarrow> (jsval + nat) \<times> world" where
  "autoAbortExpiredRequest exec request arg w0 =
     (let (abortAbleReQuest, w1) = createAbortAbleRequest w0
      in case (case cleanup w1 of None \<Rightarrow> (Inr (), w1) | Some c \<Rightarrow> abort c w1) of
           (Inl thrown, w2) \<Rightarrow> (Inl thrown, w2)
         | (Inr u, w2) \<Rightarrow>
             (let w3 = emit (CleanupAssigned abortAbleReQuest) (w2\<lparr>cleanup := Some abortAbleReQuest\<rparr>)
              in case getArg exec abortAbleReQuest arg w3 of
                   (Inl thrown, w4) \<Rightarrow> (Inl thrown, w4)
                 | (Inr requestArg, w4) \<Rightarrow>
                     (let (p, w5) = fun_call exec request abortAbleReQuest requestArg w4
                      in (Inr p, w5))))"

text \<open>Line 110 to 112, \<^verbatim>\<open>autoAbortExpiredRequest.abort\<close>: calling \<^verbatim>\<open>undefined\<close> throws a
  \<^verbatim>\<open>TypeError\<close>.\<close>

definition autoAbortExpiredRequest_abort :: "world \<Rightarrow> (jsval + unit) \<times> world" where
  "autoAbortExpiredRequest_abort w =
     (case cleanup w of None \<Rightarrow> (Inl typeError, w) | Some c \<Rightarrow> abort c w)"

section \<open>Callbacks that act on the coordinator\<close>

text \<open>One action of a callback: a call of the coordinator, whose future the callback
  keeps to itself, or a call of its \<^verbatim>\<open>abort\<close>.\<close>

fun perform :: "exec \<Rightarrow> request \<Rightarrow> effect \<Rightarrow> world \<Rightarrow> (jsval + unit) \<times> world" where
  "perform exec request (CallsCoordinator arg) w =
     (case autoAbortExpiredRequest exec request arg w of
        (Inl thrown, w1) \<Rightarrow> (Inl thrown, w1)
      | (Inr p, w1) \<Rightarrow> (Inr (), w1))"
| "perform exec request CallsAbort w = autoAbortExpiredRequest_abort w"

text \<open>The actions of a callback in order, up to the first that throws.\<close>

fun perform_all :: "exec \<Rightarrow> request \<Rightarrow> effect list \<Rightarrow> world \<Rightarrow> (jsval + unit) \<times> world" where
  "perform_all exec request [] w = (Inr (), w)"
| "perform_all exec request (e # es) w =
     (case perform exec request e w of
        (Inl thrown, w1) \<Rightarrow> (Inl thrown, w1)
      | (Inr u, w1) \<Rightarrow> perform_all exec request es w1)"

text \<open>
  A callback that calls the coordinator runs callbacks in turn. \<open>nested n request\<close>
  carries out the actions of a callback when the call stack has room for \<open>n\<close> more
  calls of the coordinator inside one another; with no room left, the first action
  throws the engine's \<^verbatim>\<open>RangeError\<close>.
\<close>

primrec nested :: "nat \<Rightarrow> request \<Rightarrow> exec" where
  "nested 0 request = (\<lambda>effs w. case effs of [] \<Rightarrow> (Inr (), w) | e # es \<Rightarrow> (Inl rangeError, w))"
| "nested (Suc n) request = perform_all (nested n request) request"

section \<open>What the environment can do\<close>

text \<open>
  Between two synchronous turns of the library the program around it may call the
  coordinator, call its \<^verbatim>\<open>abort\<close>, call the \<^verbatim>\<open>abort\<close> of a wrapper instance, or let the
  promise of an underlying request settle, which runs the reaction of line 51 to 53
  (\<open>Fulfil\<close>: \<^verbatim>\<open>resolve(res)\<close>) or of line 54 to 56 (\<open>Fail\<close>: \<^verbatim>\<open>reject(err)\<close>) of the
  wrapper promise it was registered for. \<open>n\<close> is the room on the call stack.
\<close>

datatype action =
    Call "jsval list"
  | CoordAbort
  | WrapAbort nat
  | Fulfil nat jsval
  | Fail nat jsval

fun step :: "nat \<Rightarrow> request \<Rightarrow> action \<Rightarrow> world \<Rightarrow> world" where
  "step n request (Call arg) w = snd (autoAbortExpiredRequest (nested n request) request arg w)"
| "step n request CoordAbort w = snd (autoAbortExpiredRequest_abort w)"
| "step n request (WrapAbort sid) w = snd (abort sid w)"
| "step n request (Fulfil p v) w = resolve p v w"
| "step n request (Fail p e) w = reject p e w"

definition run :: "nat \<Rightarrow> request \<Rightarrow> action list \<Rightarrow> world \<Rightarrow> world" where
  "run n request acts w = fold (step n request) acts w"

text \<open>Calls issued one after the other in one synchronous turn, with what each returned.\<close>

fun issue :: "nat \<Rightarrow> request \<Rightarrow> jsval list list \<Rightarrow> world \<Rightarrow> (jsval + nat) list \<times> world" where
  "issue n request [] w = ([], w)"
| "issue n request (arg # rest) w =
     (let (r, w1) = autoAbortExpiredRequest (nested n request) request arg w;
          (rs, w2) = issue n request rest w1
      in (r # rs, w2))"

section \<open>Notions used to state the properties\<close>

text \<open>Line 83 to 103: the coordinator's bookkeeping up to the call of \<^verbatim>\<open>getArg\<close>.\<close>

definition before_getArg :: "world \<Rightarrow> world" where
  "before_getArg w =
     (let w1 = snd (createAbortAbleRequest w);
          w2 = (case cleanup w of None \<Rightarrow> w1 | Some c \<Rightarrow> snd (abort c w1))
      in emit (CleanupAssigned (next_sig w)) (w2\<lparr>cleanup := Some (next_sig w)\<rparr>))"

text \<open>What one call of the coordinator adds to the log.\<close>

definition events_of_call :: "exec \<Rightarrow> request \<Rightarrow> jsval list \<Rightarrow> world \<Rightarrow> event list" where
  "events_of_call exec request arg w =
     drop (length (log w)) (log (snd (autoAbortExpiredRequest exec request arg w)))"

text \<open>What the builder of an argument list does to the coordinator, and what it returns
  or throws, when it is called with the signal \<open>sid\<close>; an argument list in the literal
  form has no builder.\<close>

definition builder_actions :: "jsval list \<Rightarrow> nat \<Rightarrow> effect list" where
  "builder_actions arg sid =
     (case arg0 arg of JFun nm f \<Rightarrow> if length arg = 1 then fst (f sid) else [] | _ \<Rightarrow> [])"

definition builder_result :: "jsval list \<Rightarrow> nat \<Rightarrow> jsval + jsval list" where
  "builder_result arg sid =
     (case arg0 arg of JFun nm f \<Rightarrow> if length arg = 1 then snd (f sid) else Inr arg | _ \<Rightarrow> Inr arg)"

text \<open>No callback of a call with these arguments acts on the coordinator.\<close>

definition quiet :: "request \<Rightarrow> jsval list \<Rightarrow> nat \<Rightarrow> bool" where
  "quiet R arg sid \<longleftrightarrow>
     builder_actions arg sid = [] \<and>
     (case builder_result arg sid of Inl e \<Rightarrow> True | Inr ra \<Rightarrow> fst (R ra) = [])"

text \<open>Line 46 to 50 on a signal that is not aborted: the state in which the request
  starts to run, with the new promise pending and its reject listener on the signal.\<close>

definition listening :: "nat \<Rightarrow> jsval list \<Rightarrow> world \<Rightarrow> world" where
  "listening sid arg w =
     emit (RequestCalled arg)
       (addEventListener sid (RejectOnAbort (next_prom w))
          (snd (alloc_promise Pending (emit (Invoked sid arg) w))))"

text \<open>
  The five steps in the order in which section 4.2 of the specification lists them
  (cancel the previous instance, construct the new one, resolve the arguments, record
  the new instance, invoke it), as the events a call in that order would leave when no
  callback acts on the coordinator. It is compared with \<open>events_of_call\<close>, which is the
  order of the code.
\<close>

definition events_as_specified :: "jsval list \<Rightarrow> world \<Rightarrow> event list" where
  "events_as_specified arg w =
     (case cleanup w of None \<Rightarrow> [] | Some c \<Rightarrow> [AbortCalled c]) @
     Constructed (next_sig w) #
     (if is_function (arg0 arg) \<and> length arg = 1 then [BuilderCalled (next_sig w)] else []) @
     (case builder_result arg (next_sig w) of
        Inl e \<Rightarrow> []
      | Inr ra \<Rightarrow> [CleanupAssigned (next_sig w), Invoked (next_sig w) ra, RequestCalled ra])"

text \<open>The worlds a run passes through, and how often the state of a future changes
  along a list of its states.\<close>

fun trace :: "nat \<Rightarrow> request \<Rightarrow> action list \<Rightarrow> world \<Rightarrow> world list" where
  "trace n request [] w = [w]"
| "trace n request (a # acts) w = w # trace n request acts (step n request a w)"

fun changes :: "settle list \<Rightarrow> nat" where
  "changes (a # b # rest) = (if a = b then 0 else 1) + changes (b # rest)"
| "changes rest = 0"

text \<open>The actions that cancel the wrapper instance \<open>sid\<close> or complete the underlying
  request of its future \<open>p\<close>.\<close>

fun settles :: "nat \<Rightarrow> nat \<Rightarrow> action \<Rightarrow> bool" where
  "settles sid p (WrapAbort s) = (s = sid)"
| "settles sid p (Fulfil q v) = (q = p)"
| "settles sid p (Fail q e) = (q = p)"
| "settles sid p (Call arg) = False"
| "settles sid p CoordAbort = False"

text \<open>As long as a future is pending, its reject listener sits on its live signal.\<close>

definition armed :: "nat \<Rightarrow> nat \<Rightarrow> world \<Rightarrow> bool" where
  "armed sid p w \<longleftrightarrow>
     p < next_prom w \<and> sid < next_sig w \<and>
     (proms w p = Pending \<longrightarrow>
        \<not> aborted (sigs w sid) \<and> RejectOnAbort p \<in> set (listeners (sigs w sid)))"

text \<open>The instance a coordinator remembers is one that was constructed.\<close>

definition coordinator_ok :: "world \<Rightarrow> bool" where
  "coordinator_ok w = (case cleanup w of None \<Rightarrow> True | Some c \<Rightarrow> c < next_sig w)"

text \<open>An instance is the one the coordinator remembers, or it is aborted.\<close>

definition current :: "nat \<Rightarrow> world \<Rightarrow> bool" where
  "current sid w \<longleftrightarrow> cleanup w = Some sid \<or> aborted (sigs w sid)"

text \<open>
  What the library and the callbacks it runs can do to the controllers and promises that
  exist already: controllers and promises are only added, the log only grows, a promise
  changes only from pending to rejected with the AbortError, a signal is never
  un-aborted and loses no listener, and when a signal becomes aborted the promises whose
  reject listener it holds are settled.
\<close>

definition later :: "world \<Rightarrow> world \<Rightarrow> bool" where
  "later w w' \<longleftrightarrow>
     next_sig w \<le> next_sig w' \<and> next_prom w \<le> next_prom w' \<and>
     (\<exists>more. log w' = log w @ more) \<and>
     (\<forall>p. p < next_prom w \<longrightarrow>
        proms w' p = proms w p \<or> (proms w p = Pending \<and> proms w' p = Rejected abortError)) \<and>
     (\<forall>s. s < next_sig w \<longrightarrow>
        (aborted (sigs w s) \<longrightarrow> aborted (sigs w' s)) \<and>
        set (listeners (sigs w s)) \<subseteq> set (listeners (sigs w' s)) \<and>
        (\<forall>p. p < next_prom w \<longrightarrow> RejectOnAbort p \<in> set (listeners (sigs w s)) \<longrightarrow>
           \<not> aborted (sigs w s) \<longrightarrow> aborted (sigs w' s) \<longrightarrow> proms w' p \<noteq> Pending))"

text \<open>What is needed of the way callbacks act: it stays within \<open>later\<close>, keeps the
  coordinator's variable on constructed instances and never clears it, leaves an instance
  that is not remembered any more aborted, and does nothing when there is nothing to do.\<close>

definition exec_ok :: "exec \<Rightarrow> bool" where
  "exec_ok exec \<longleftrightarrow>
     (\<forall>effs w. later w (snd (exec effs w)) \<and>
        (coordinator_ok w \<longrightarrow> coordinator_ok (snd (exec effs w))) \<and>
        (cleanup w \<noteq> None \<longrightarrow> cleanup (snd (exec effs w)) \<noteq> None) \<and>
        (\<forall>s. s < next_sig w \<longrightarrow> current s w \<longrightarrow> current s (snd (exec effs w)))) \<and>
     (\<forall>w. exec [] w = (Inr (), w))"

text \<open>Requests and argument builders to run the model on: a request that returns a
  promise, one that throws, one that calls \<^verbatim>\<open>c.abort()\<close> and then throws; the builder
  \<^verbatim>\<open>({ signal }) => [{ signal }]\<close>, and a builder that calls \<^verbatim>\<open>c.abort()\<close> first.\<close>

definition getDataAPI :: request where
  "getDataAPI arg = ([], ReturnsPromise)"

definition brokenAPI :: request where
  "brokenAPI arg = ([], Throws (JStr ''offline''))"

definition selfAbortingAPI :: request where
  "selfAbortingAPI arg = ([CallsAbort], Throws (JStr ''offline''))"

definition withSignal :: "nat \<Rightarrow> effect list \<times> (jsval + jsval list)" where
  "withSignal sid = ([], Inr [JObj [(''signal'', JSignal sid)]])"

definition abortingBuilder :: "nat \<Rightarrow> effect list \<times> (jsval + jsval list)" where
  "abortingBuilder sid = ([CallsAbort], Inr [JObj [(''signal'', JSignal sid)]])"

definition reenteringBuilder :: "nat \<Rightarrow> effect list \<times> (jsval + jsval list)" where
  "reenteringBuilder sid = ([CallsCoordinator [JNum 9]], Inr [JObj [(''signal'', JSignal sid)]])"

section \<open>Effects of the operations, field by field\<close>

lemmas model_defs =
  autoAbortExpiredRequest_def autoAbortExpiredRequest_abort_def createAutoAbortExpiredRequest_def
  createAbortAbleRequest_def new_controller_def abort_def controller_abort_def
  addEventListener_def fun_call_def executor_def new_promise_def promise_reject_def
  alloc_promise_def reject_def resolve_def settle_promise_def emit_def getArg_def arg0_def
  empty_heap_def Let_def getDataAPI_def brokenAPI_def selfAbortingAPI_def withSignal_def
  abortingBuilder_def reenteringBuilder_def before_getArg_def events_of_call_def
  events_as_specified_def listening_def builder_actions_def builder_result_def quiet_def

lemma emit_fields [simp]:
  "sigs (emit e w) = sigs w" "next_sig (emit e w) = next_sig w"
  "proms (emit e w) = proms w" "next_prom (emit e w) = next_prom w"
  "cleanup (emit e w) = cleanup w" "log (emit e w) = log w @ [e]"
  by (simp_all add: emit_def)

lemma settle_promise_fields [simp]:
  "sigs (settle_promise p out w) = sigs w" "next_sig (settle_promise p out w) = next_sig w"
  "next_prom (settle_promise p out w) = next_prom w"
  "cleanup (settle_promise p out w) = cleanup w" "log (settle_promise p out w) = log w"
  by (simp_all add: settle_promise_def)

lemma settle_promise_proms:
  "proms (settle_promise p out w) q = (if q = p \<and> proms w p = Pending then out else proms w q)"
  by (simp add: settle_promise_def)

lemma run_listener_fields [simp]:
  "sigs (run_listener l w) = sigs w" "next_sig (run_listener l w) = next_sig w"
  "next_prom (run_listener l w) = next_prom w"
  "cleanup (run_listener l w) = cleanup w" "log (run_listener l w) = log w"
  by (cases l; simp add: reject_def)+

lemma listeners_sigs [simp]: "sigs (fold run_listener ls w) = sigs w"
  by (induction ls arbitrary: w) simp_all

lemma listeners_next_sig [simp]: "next_sig (fold run_listener ls w) = next_sig w"
  by (induction ls arbitrary: w) simp_all

lemma listeners_next_prom [simp]: "next_prom (fold run_listener ls w) = next_prom w"
  by (induction ls arbitrary: w) simp_all

lemma listeners_cleanup [simp]: "cleanup (fold run_listener ls w) = cleanup w"
  by (induction ls arbitrary: w) simp_all

lemma listeners_log [simp]: "log (fold run_listener ls w) = log w"
  by (induction ls arbitrary: w) simp_all

lemma listeners_proms:
  "proms (fold run_listener ls w) q =
     (if RejectOnAbort q \<in> set ls \<and> proms w q = Pending then Rejected abortError else proms w q)"
proof (induction ls arbitrary: w)
  case Nil
  show ?case by simp
next
  case (Cons l ls)
  obtain p where l: "l = RejectOnAbort p" by (cases l)
  show ?case
    by (auto simp add: Cons.IH l reject_def settle_promise_proms)
qed

lemma controller_abort_fields [simp]:
  "next_sig (controller_abort sid w) = next_sig w"
  "next_prom (controller_abort sid w) = next_prom w"
  "cleanup (controller_abort sid w) = cleanup w" "log (controller_abort sid w) = log w"
  by (simp_all add: controller_abort_def)

lemma controller_abort_aborted:
  "aborted (sigs (controller_abort sid w) s) = (aborted (sigs w s) \<or> s = sid)"
  by (auto simp add: controller_abort_def)

lemma controller_abort_listeners:
  "listeners (sigs (controller_abort sid w) s) = listeners (sigs w s)"
  by (simp add: controller_abort_def)

lemma controller_abort_proms:
  "proms (controller_abort sid w) q =
     (if \<not> aborted (sigs w sid) \<and> RejectOnAbort q \<in> set (listeners (sigs w sid)) \<and> proms w q = Pending
      then Rejected abortError else proms w q)"
  by (simp add: controller_abort_def listeners_proms)

lemma alloc_promise_simps [simp]:
  "fst (alloc_promise st w) = next_prom w"
  "sigs (snd (alloc_promise st w)) = sigs w"
  "next_sig (snd (alloc_promise st w)) = next_sig w"
  "next_prom (snd (alloc_promise st w)) = Suc (next_prom w)"
  "cleanup (snd (alloc_promise st w)) = cleanup w"
  "log (snd (alloc_promise st w)) = log w"
  "proms (snd (alloc_promise st w)) = (proms w)(next_prom w := st)"
  by (simp_all add: alloc_promise_def)

lemma addEventListener_simps [simp]:
  "next_sig (addEventListener sid l w) = next_sig w"
  "next_prom (addEventListener sid l w) = next_prom w"
  "cleanup (addEventListener sid l w) = cleanup w"
  "log (addEventListener sid l w) = log w"
  "proms (addEventListener sid l w) = proms w"
  "sigs (addEventListener sid l w) =
     (sigs w)(sid := (sigs w sid)\<lparr>listeners := listeners (sigs w sid) @ [l]\<rparr>)"
  by (simp_all add: addEventListener_def)

lemma createAbortAbleRequest_simps [simp]:
  "fst (createAbortAbleRequest w) = next_sig w"
  "next_sig (snd (createAbortAbleRequest w)) = Suc (next_sig w)"
  "next_prom (snd (createAbortAbleRequest w)) = next_prom w"
  "cleanup (snd (createAbortAbleRequest w)) = cleanup w"
  "proms (snd (createAbortAbleRequest w)) = proms w"
  "log (snd (createAbortAbleRequest w)) = log w @ [Constructed (next_sig w)]"
  "sigs (snd (createAbortAbleRequest w)) =
     (sigs w)(next_sig w := \<lparr>aborted = False, listeners = []\<rparr>)"
  by (simp_all add: createAbortAbleRequest_def new_controller_def)

lemma abort_simps [simp]:
  "fst (abort sid w) = Inr ()"
  "next_sig (snd (abort sid w)) = next_sig w"
  "next_prom (snd (abort sid w)) = next_prom w"
  "cleanup (snd (abort sid w)) = cleanup w"
  "log (snd (abort sid w)) = log w @ [AbortCalled sid]"
  by (simp_all add: abort_def)

lemma abort_aborted: "aborted (sigs (snd (abort sid w)) s) = (aborted (sigs w s) \<or> s = sid)"
  by (simp add: abort_def controller_abort_aborted)

lemma abort_listeners: "listeners (sigs (snd (abort sid w)) s) = listeners (sigs w s)"
  by (simp add: abort_def controller_abort_listeners)

lemma abort_proms:
  "proms (snd (abort sid w)) q =
     (if \<not> aborted (sigs w sid) \<and> RejectOnAbort q \<in> set (listeners (sigs w sid)) \<and> proms w q = Pending
      then Rejected abortError else proms w q)"
  by (simp add: abort_def controller_abort_proms)

lemma before_getArg_simps [simp]:
  "next_sig (before_getArg w) = Suc (next_sig w)"
  "next_prom (before_getArg w) = next_prom w"
  "cleanup (before_getArg w) = Some (next_sig w)"
  "log (before_getArg w) =
     log w @ Constructed (next_sig w) #
       (case cleanup w of None \<Rightarrow> [] | Some c \<Rightarrow> [AbortCalled c]) @ [CleanupAssigned (next_sig w)]"
  by (simp_all add: before_getArg_def Let_def split: option.splits)

lemma before_getArg_aborted:
  "aborted (sigs (before_getArg w) x) =
     (if x = next_sig w then cleanup w = Some x else aborted (sigs w x) \<or> cleanup w = Some x)"
  by (auto simp add: before_getArg_def Let_def abort_aborted split: option.splits)

lemma before_getArg_listeners:
  "listeners (sigs (before_getArg w) x) = (if x = next_sig w then [] else listeners (sigs w x))"
  by (simp add: before_getArg_def Let_def abort_listeners split: option.splits)

lemma before_getArg_proms:
  "proms (before_getArg w) q =
     (if (\<exists>c. cleanup w = Some c \<and> c \<noteq> next_sig w \<and> \<not> aborted (sigs w c)
              \<and> RejectOnAbort q \<in> set (listeners (sigs w c))) \<and> proms w q = Pending
      then Rejected abortError else proms w q)"
  by (auto simp add: before_getArg_def Let_def abort_proms split: option.splits)

lemma later_refl [simp]: "later w w"
  by (simp add: later_def)

lemma later_trans:
  assumes a: "later w u" and b: "later u w'"
  shows "later w w'"
proof -
  have m: "next_sig w \<le> next_sig u" "next_prom w \<le> next_prom u"
    "next_sig u \<le> next_sig w'" "next_prom u \<le> next_prom w'"
    using a b by (simp_all add: later_def)
  have lg: "\<exists>more. log w' = log w @ more"
    using a b by (auto simp add: later_def)
  have pr1: "proms u p = proms w p \<or> (proms w p = Pending \<and> proms u p = Rejected abortError)"
    if "p < next_prom w" for p
    using a that by (simp add: later_def)
  have pr2: "proms w' p = proms u p \<or> (proms u p = Pending \<and> proms w' p = Rejected abortError)"
    if "p < next_prom u" for p
    using b that by (simp add: later_def)
  have pr: "proms w' p = proms w p \<or> (proms w p = Pending \<and> proms w' p = Rejected abortError)"
    if "p < next_prom w" for p
    using pr1 [OF that] pr2 [of p] that m(2) by auto
  have ab1: "aborted (sigs w s) \<longrightarrow> aborted (sigs u s)"
    and li1: "set (listeners (sigs w s)) \<subseteq> set (listeners (sigs u s))"
    and ar1: "\<And>p. p < next_prom w \<Longrightarrow> RejectOnAbort p \<in> set (listeners (sigs w s)) \<Longrightarrow>
           \<not> aborted (sigs w s) \<Longrightarrow> aborted (sigs u s) \<Longrightarrow> proms u p \<noteq> Pending"
    if "s < next_sig w" for s
    using a that by (simp_all add: later_def)
  have ab2: "aborted (sigs u s) \<longrightarrow> aborted (sigs w' s)"
    and li2: "set (listeners (sigs u s)) \<subseteq> set (listeners (sigs w' s))"
    and ar2: "\<And>p. p < next_prom u \<Longrightarrow> RejectOnAbort p \<in> set (listeners (sigs u s)) \<Longrightarrow>
           \<not> aborted (sigs u s) \<Longrightarrow> aborted (sigs w' s) \<Longrightarrow> proms w' p \<noteq> Pending"
    if "s < next_sig u" for s
    using b that by (simp_all add: later_def)
  have sg: "(aborted (sigs w s) \<longrightarrow> aborted (sigs w' s)) \<and>
        set (listeners (sigs w s)) \<subseteq> set (listeners (sigs w' s)) \<and>
        (\<forall>p. p < next_prom w \<longrightarrow> RejectOnAbort p \<in> set (listeners (sigs w s)) \<longrightarrow>
           \<not> aborted (sigs w s) \<longrightarrow> aborted (sigs w' s) \<longrightarrow> proms w' p \<noteq> Pending)"
    if s: "s < next_sig w" for s
  proof -
    have su: "s < next_sig u"
      using s m(1) by simp
    have 1: "aborted (sigs w s) \<longrightarrow> aborted (sigs w' s)"
      using ab1 [OF s] ab2 [OF su] by simp
    have 2: "set (listeners (sigs w s)) \<subseteq> set (listeners (sigs w' s))"
      using li1 [OF s] li2 [OF su] by blast
    have 3: "proms w' p \<noteq> Pending"
      if p: "p < next_prom w" and l: "RejectOnAbort p \<in> set (listeners (sigs w s))"
        and n: "\<not> aborted (sigs w s)" and y: "aborted (sigs w' s)" for p
    proof (cases "aborted (sigs u s)")
      case True
      have "proms u p \<noteq> Pending"
        using ar1 [OF s p l n True] .
      moreover have "p < next_prom u"
        using p m(2) by simp
      ultimately show ?thesis
        using pr2 [of p] by auto
    next
      case False
      have pu: "p < next_prom u"
        using p m(2) by simp
      have "RejectOnAbort p \<in> set (listeners (sigs u s))"
        using l li1 [OF s] by blast
      then show ?thesis
        using ar2 [OF su pu _ False y] by simp
    qed
    show ?thesis
      using 1 2 3 by blast
  qed
  show ?thesis
    unfolding later_def using m lg pr sg by (intro conjI allI impI) auto
qed

section \<open>What the library can do to what exists\<close>

lemma later_emit: "later w (emit e w)"
  by (simp add: later_def)

lemma later_alloc: "later w (snd (alloc_promise st w))"
  by (simp add: later_def)

lemma later_addEventListener: "later w (addEventListener sid l w)"
  by (auto simp add: later_def)

lemma later_assign: "later w (w\<lparr>cleanup := c\<rparr>)"
  by (simp add: later_def)

lemma later_createAbortAbleRequest: "later w (snd (createAbortAbleRequest w))"
  by (simp add: later_def)

lemma later_abort: "later w (snd (abort sid w))"
  unfolding later_def
  by (auto simp add: abort_aborted abort_listeners abort_proms)

lemma later_settle_fresh:
  assumes "later w u" and "next_prom w \<le> p"
  shows "later w (settle_promise p st u)"
  using assms unfolding later_def
  by (simp add: settle_promise_proms)

lemma later_coordinator_abort: "later w (snd (autoAbortExpiredRequest_abort w))"
  by (simp add: autoAbortExpiredRequest_abort_def later_abort split: option.splits)

lemma later_before_getArg: "later w (before_getArg w)"
proof -
  let ?w1 = "snd (createAbortAbleRequest w)"
  let ?w2 = "case cleanup w of None \<Rightarrow> ?w1 | Some c \<Rightarrow> snd (abort c ?w1)"
  have 1: "later w ?w1"
    by (rule later_createAbortAbleRequest)
  have 2: "later ?w1 ?w2"
    by (simp add: later_abort split: option.splits)
  have 3: "later ?w2 (?w2\<lparr>cleanup := Some (next_sig w)\<rparr>)"
    by (rule later_assign)
  have 4: "later (?w2\<lparr>cleanup := Some (next_sig w)\<rparr>)
             (emit (CleanupAssigned (next_sig w)) (?w2\<lparr>cleanup := Some (next_sig w)\<rparr>))"
    by (rule later_emit)
  have "later w (emit (CleanupAssigned (next_sig w)) (?w2\<lparr>cleanup := Some (next_sig w)\<rparr>))"
    using later_trans [OF later_trans [OF later_trans [OF 1 2] 3] 4] .
  then show ?thesis
    by (simp add: before_getArg_def Let_def)
qed

lemma exec_ok_later: "exec_ok exec \<Longrightarrow> later w (snd (exec effs w))"
  by (simp add: exec_ok_def)

lemma exec_ok_Nil: "exec_ok exec \<Longrightarrow> exec [] w = (Inr (), w)"
  by (simp add: exec_ok_def)

lemma exec_ok_coordinator_ok:
  "exec_ok exec \<Longrightarrow> coordinator_ok w \<Longrightarrow> coordinator_ok (snd (exec effs w))"
  by (simp add: exec_ok_def)

lemma exec_ok_defined:
  "exec_ok exec \<Longrightarrow> cleanup w \<noteq> None \<Longrightarrow> cleanup (snd (exec effs w)) \<noteq> None"
  by (simp add: exec_ok_def)

lemma exec_ok_current:
  "exec_ok exec \<Longrightarrow> s < next_sig w \<Longrightarrow> current s w \<Longrightarrow> current s (snd (exec effs w))"
  by (simp add: exec_ok_def)

text \<open>getArg\<close>

lemma getArg_literal:
  "\<not> (is_function (arg0 arg) \<and> length arg = 1) \<Longrightarrow> getArg exec sid arg w = (Inr arg, w)"
  by (auto simp add: getArg_def)


lemma builder_form_iff:
  "is_function (arg0 arg) \<and> length arg = 1 \<longleftrightarrow> (\<exists>nm f. arg = [JFun nm f])"
proof (cases arg)
  case Nil
  then show ?thesis by (simp add: arg0_def)
next
  case (Cons a rest)
  then show ?thesis by (cases a; cases rest) (simp_all add: arg0_def)
qed

lemma getArg_snd:
  "snd (getArg exec sid arg w) =
     (if is_function (arg0 arg) \<and> length arg = 1
      then snd (exec (builder_actions arg sid) (emit (BuilderCalled sid) w)) else w)"
proof (cases "is_function (arg0 arg) \<and> length arg = 1")
  case True
  then obtain nm f where a: "arg = [JFun nm f]"
    using builder_form_iff [of arg] by blast
  obtain r w1 where e: "exec (fst (f sid)) (emit (BuilderCalled sid) w) = (r, w1)"
    by (cases "exec (fst (f sid)) (emit (BuilderCalled sid) w)")
  show ?thesis
    unfolding a
    by (cases r) (simp_all add: getArg_def builder_actions_def arg0_def e)
next
  case False
  then show ?thesis
    by (auto simp add: getArg_literal)
qed

lemma later_getArg:
  assumes "exec_ok exec"
  shows "later w (snd (getArg exec sid arg w))"
  unfolding getArg_snd
  using later_trans [OF later_emit exec_ok_later [OF assms]] by simp

text \<open>fun\<close>

lemma fun_call_aborted:
  "aborted (sigs w sid) \<Longrightarrow>
   fun_call exec R sid arg w = alloc_promise (Rejected abortError) (emit (Invoked sid arg) w)"
  by (simp add: fun_call_def promise_reject_def)

lemma fun_call_live:
  "\<not> aborted (sigs w sid) \<Longrightarrow>
   fun_call exec R sid arg w =
     (next_prom w,
      case exec (fst (R arg)) (listening sid arg w) of
        (Inl thrown, w3) \<Rightarrow> reject (next_prom w) thrown w3
      | (Inr u, w3) \<Rightarrow>
          (case snd (R arg) of
             Throws e \<Rightarrow> reject (next_prom w) e w3
           | ReturnsPromise \<Rightarrow> w3))"
proof -
  assume live: "\<not> aborted (sigs w sid)"
  obtain r w3 where e: "exec (fst (R arg)) (listening sid arg w) = (r, w3)"
    by (cases "exec (fst (R arg)) (listening sid arg w)")
  have e': "exec (fst (R arg))
          (emit (RequestCalled arg)
            (addEventListener sid (RejectOnAbort (next_prom w))
              (snd (alloc_promise Pending (emit (Invoked sid arg) w))))) = (r, w3)"
    using e by (simp add: listening_def)
  show ?thesis
    using live
    by (cases r; cases "snd (R arg)")
      (simp_all add: fun_call_def new_promise_def executor_def Let_def split_beta e e')
qed

lemma fun_call_fst [simp]: "fst (fun_call exec R sid arg w) = next_prom w"
  by (cases "aborted (sigs w sid)") (simp_all add: fun_call_aborted fun_call_live)

lemma later_listening: "later w (listening sid arg w)"
  unfolding listening_def
  by (rule later_trans [OF later_emit
        later_trans [OF later_alloc later_trans [OF later_addEventListener later_emit]]])

lemma listening_simps [simp]:
  "next_prom (listening sid arg w) = Suc (next_prom w)"
  "next_sig (listening sid arg w) = next_sig w"
  "cleanup (listening sid arg w) = cleanup w"
  "log (listening sid arg w) = log w @ [Invoked sid arg, RequestCalled arg]"
  "proms (listening sid arg w) = (proms w)(next_prom w := Pending)"
  "sigs (listening sid arg w) =
     (sigs w)(sid := (sigs w sid)\<lparr>listeners := listeners (sigs w sid) @ [RejectOnAbort (next_prom w)]\<rparr>)"
  by (simp_all add: listening_def)

lemma later_fun_call:
  assumes ok: "exec_ok exec"
  shows "later w (snd (fun_call exec R sid arg w))"
proof (cases "aborted (sigs w sid)")
  case True
  show ?thesis
    using later_trans [OF later_emit later_alloc]
    by (simp add: fun_call_aborted [OF True])
next
  case False
  let ?u = "snd (exec (fst (R arg)) (listening sid arg w))"
  have u: "later w ?u"
    by (rule later_trans [OF later_listening exec_ok_later [OF ok]])
  have "later w (settle_promise (next_prom w) st ?u)" for st
    using u by (rule later_settle_fresh) simp
  then show ?thesis
    using u by (auto simp add: fun_call_live [OF False] reject_def split: prod.splits sum.splits req_outcome.splits)
qed

text \<open>The coordinator's call\<close>

lemma call_unfold:
  "autoAbortExpiredRequest exec R arg w =
     (case getArg exec (next_sig w) arg (before_getArg w) of
        (Inl thrown, w4) \<Rightarrow> (Inl thrown, w4)
      | (Inr requestArg, w4) \<Rightarrow>
          (Inr (next_prom w4), snd (fun_call exec R (next_sig w) requestArg w4)))"
  by (auto simp add: autoAbortExpiredRequest_def before_getArg_def Let_def split_beta
      abort_def createAbortAbleRequest_def new_controller_def split: option.splits sum.splits prod.splits)

lemma later_call:
  assumes ok: "exec_ok exec"
  shows "later w (snd (autoAbortExpiredRequest exec R arg w))"
proof -
  let ?g = "getArg exec (next_sig w) arg (before_getArg w)"
  have g: "later w (snd ?g)"
    by (rule later_trans [OF later_before_getArg later_getArg [OF ok]])
  show ?thesis
  proof (cases "fst ?g")
    case (Inl thrown)
    then show ?thesis
      using g by (auto simp add: call_unfold split: prod.splits)
  next
    case (Inr ra)
    have "later w (snd (fun_call exec R (next_sig w) ra (snd ?g)))"
      by (rule later_trans [OF g later_fun_call [OF ok]])
    then show ?thesis
      using Inr by (auto simp add: call_unfold split: prod.splits)
  qed
qed

section \<open>Callbacks stay within these bounds\<close>

lemma later_aborted: "later w w' \<Longrightarrow> s < next_sig w \<Longrightarrow> aborted (sigs w s) \<Longrightarrow> aborted (sigs w' s)"
  by (simp add: later_def)

lemma later_next_sig: "later w w' \<Longrightarrow> next_sig w \<le> next_sig w'"
  by (simp add: later_def)

lemma later_next_prom: "later w w' \<Longrightarrow> next_prom w \<le> next_prom w'"
  by (simp add: later_def)

lemma later_proms:
  "later w w' \<Longrightarrow> p < next_prom w \<Longrightarrow>
   proms w' p = proms w p \<or> (proms w p = Pending \<and> proms w' p = Rejected abortError)"
  by (simp add: later_def)

lemma later_settled:
  "later w w' \<Longrightarrow> p < next_prom w \<Longrightarrow> proms w p \<noteq> Pending \<Longrightarrow> proms w' p = proms w p"
  using later_proms [of w w' p] by auto

lemma later_listeners:
  "later w w' \<Longrightarrow> s < next_sig w \<Longrightarrow> l \<in> set (listeners (sigs w s)) \<Longrightarrow>
   l \<in> set (listeners (sigs w' s))"
  unfolding later_def by blast

lemma later_armed: "later w w' \<Longrightarrow> armed s p w \<Longrightarrow> armed s p w'"
proof -
  assume l: "later w w'" and a: "armed s p w"
  have s: "s < next_sig w" and p: "p < next_prom w"
    using a by (simp_all add: armed_def)
  have "\<not> aborted (sigs w' s) \<and> RejectOnAbort p \<in> set (listeners (sigs w' s))"
    if pend: "proms w' p = Pending"
  proof -
    have pw: "proms w p = Pending"
      using later_proms [OF l p] pend by auto
    then have na: "\<not> aborted (sigs w s)" and li: "RejectOnAbort p \<in> set (listeners (sigs w s))"
      using a by (simp_all add: armed_def)
    have "\<not> aborted (sigs w' s)"
    proof
      assume "aborted (sigs w' s)"
      then have "proms w' p \<noteq> Pending"
        using l s p li na unfolding later_def by blast
      then show False
        using pend by simp
    qed
    then show ?thesis
      using later_listeners [OF l s li] by simp
  qed
  then show ?thesis
    using s p later_next_sig [OF l] later_next_prom [OF l] by (simp add: armed_def)
qed

text \<open>coordinator_ok\<close>

lemma coordinator_ok_cong:
  "cleanup w' = cleanup w \<Longrightarrow> next_sig w \<le> next_sig w' \<Longrightarrow> coordinator_ok w \<Longrightarrow> coordinator_ok w'"
  by (auto simp add: coordinator_ok_def split: option.splits)

lemma coordinator_ok_before_getArg: "coordinator_ok (before_getArg w)"
  by (simp add: coordinator_ok_def)

lemma coordinator_ok_emit [simp]: "coordinator_ok (emit e w) = coordinator_ok w"
  by (simp add: coordinator_ok_def split: option.splits)

lemma coordinator_ok_getArg:
  "exec_ok exec \<Longrightarrow> coordinator_ok w \<Longrightarrow> coordinator_ok (snd (getArg exec sid arg w))"
  by (simp add: getArg_snd exec_ok_coordinator_ok)

lemma coordinator_ok_settle [simp]:
  "coordinator_ok (settle_promise p st w) = coordinator_ok w"
  by (simp add: coordinator_ok_def split: option.splits)

lemma coordinator_ok_listening [simp]: "coordinator_ok (listening sid arg w) = coordinator_ok w"
  by (simp add: coordinator_ok_def split: option.splits)

lemma coordinator_ok_fun_call:
  assumes ok: "exec_ok exec" and c: "coordinator_ok w"
  shows "coordinator_ok (snd (fun_call exec R sid arg w))"
proof (cases "aborted (sigs w sid)")
  case True
  show ?thesis
    using c by (simp add: fun_call_aborted [OF True] coordinator_ok_def split: option.splits)
next
  case False
  have "coordinator_ok (snd (exec (fst (R arg)) (listening sid arg w)))"
    using ok c by (simp add: exec_ok_coordinator_ok)
  then show ?thesis
    by (auto simp add: fun_call_live [OF False] reject_def split: prod.splits sum.splits req_outcome.splits)
qed

lemma coordinator_ok_call:
  assumes ok: "exec_ok exec"
  shows "coordinator_ok (snd (autoAbortExpiredRequest exec R arg w))"
proof -
  let ?g = "getArg exec (next_sig w) arg (before_getArg w)"
  have g: "coordinator_ok (snd ?g)"
    using ok coordinator_ok_before_getArg by (rule coordinator_ok_getArg)
  show ?thesis
  proof (cases "fst ?g")
    case (Inl thrown)
    then show ?thesis
      using g by (auto simp add: call_unfold split: prod.splits)
  next
    case (Inr ra)
    have "coordinator_ok (snd (fun_call exec R (next_sig w) ra (snd ?g)))"
      using ok g by (rule coordinator_ok_fun_call)
    then show ?thesis
      using Inr by (auto simp add: call_unfold split: prod.splits)
  qed
qed

lemma coordinator_ok_abort: "coordinator_ok w \<Longrightarrow> coordinator_ok (snd (abort sid w))"
  by (simp add: coordinator_ok_def split: option.splits)

lemma coordinator_ok_coordinator_abort:
  "coordinator_ok w \<Longrightarrow> coordinator_ok (snd (autoAbortExpiredRequest_abort w))"
  by (simp add: autoAbortExpiredRequest_abort_def coordinator_ok_abort split: option.splits)

text \<open>The coordinator's variable stays defined\<close>

lemma defined_getArg:
  "exec_ok exec \<Longrightarrow> cleanup w \<noteq> None \<Longrightarrow> cleanup (snd (getArg exec sid arg w)) \<noteq> None"
  using exec_ok_defined [of exec "emit (BuilderCalled sid) w" "builder_actions arg sid"]
  by (auto simp add: getArg_snd)

lemma defined_fun_call:
  assumes ok: "exec_ok exec" and c: "cleanup w \<noteq> None"
  shows "cleanup (snd (fun_call exec R sid arg w)) \<noteq> None"
proof (cases "aborted (sigs w sid)")
  case True
  show ?thesis
    using c by (simp add: fun_call_aborted [OF True])
next
  case False
  have "cleanup (snd (exec (fst (R arg)) (listening sid arg w))) \<noteq> None"
    using exec_ok_defined [OF ok, of "listening sid arg w" "fst (R arg)"] c by simp
  then show ?thesis
    by (auto simp add: fun_call_live [OF False] reject_def split: prod.splits sum.splits req_outcome.splits)
qed

lemma defined_call:
  assumes ok: "exec_ok exec"
  shows "cleanup (snd (autoAbortExpiredRequest exec R arg w)) \<noteq> None"
proof -
  let ?g = "getArg exec (next_sig w) arg (before_getArg w)"
  have g: "cleanup (snd ?g) \<noteq> None"
    using ok by (rule defined_getArg) simp
  show ?thesis
  proof (cases "fst ?g")
    case (Inl thrown)
    then show ?thesis
      using g by (auto simp add: call_unfold split: prod.splits)
  next
    case (Inr ra)
    have "cleanup (snd (fun_call exec R (next_sig w) ra (snd ?g))) \<noteq> None"
      using ok g by (rule defined_fun_call)
    then show ?thesis
      using Inr by (auto simp add: call_unfold split: prod.splits)
  qed
qed

lemma defined_coordinator_abort: "cleanup (snd (autoAbortExpiredRequest_abort w)) = cleanup w"
  by (simp add: autoAbortExpiredRequest_abort_def split: option.splits)

text \<open>current\<close>

lemma later_after_before_getArg:
  assumes ok: "exec_ok exec"
  shows "later (before_getArg w) (snd (autoAbortExpiredRequest exec R arg w))"
proof -
  let ?g = "getArg exec (next_sig w) arg (before_getArg w)"
  have g: "later (before_getArg w) (snd ?g)"
    by (rule later_getArg [OF ok])
  show ?thesis
  proof (cases "fst ?g")
    case (Inl thrown)
    then show ?thesis
      using g by (auto simp add: call_unfold split: prod.splits)
  next
    case (Inr ra)
    have "later (before_getArg w) (snd (fun_call exec R (next_sig w) ra (snd ?g)))"
      by (rule later_trans [OF g later_fun_call [OF ok]])
    then show ?thesis
      using Inr by (auto simp add: call_unfold split: prod.splits)
  qed
qed

lemma call_aborts_current:
  assumes ok: "exec_ok exec" and s: "s < next_sig w" and c: "current s w"
  shows "aborted (sigs (snd (autoAbortExpiredRequest exec R arg w)) s)"
proof -
  have "aborted (sigs (before_getArg w) s)"
    using s c by (auto simp add: before_getArg_aborted current_def)
  moreover have "s < next_sig (before_getArg w)"
    using s by simp
  ultimately show ?thesis
    using later_aborted [OF later_after_before_getArg [OF ok]] by blast
qed

lemma current_abort: "s < next_sig w \<Longrightarrow> current s w \<Longrightarrow> current s (snd (abort c w))"
  by (auto simp add: current_def abort_aborted)

lemma current_coordinator_abort:
  "s < next_sig w \<Longrightarrow> current s w \<Longrightarrow> current s (snd (autoAbortExpiredRequest_abort w))"
  by (simp add: autoAbortExpiredRequest_abort_def current_abort split: option.splits)

text \<open>The actions of callbacks\<close>

lemma perform_ok:
  assumes ok: "exec_ok exec"
  shows "later w (snd (perform exec R e w))"
    and "coordinator_ok w \<Longrightarrow> coordinator_ok (snd (perform exec R e w))"
    and "s < next_sig w \<Longrightarrow> current s w \<Longrightarrow> current s (snd (perform exec R e w))"
    and "cleanup w \<noteq> None \<Longrightarrow> cleanup (snd (perform exec R e w)) \<noteq> None"
proof -
  have sn: "snd (perform exec R e w) =
     (case e of CallsCoordinator arg \<Rightarrow> snd (autoAbortExpiredRequest exec R arg w)
              | CallsAbort \<Rightarrow> snd (autoAbortExpiredRequest_abort w))"
    by (cases e) (auto split: prod.splits sum.splits)
  show "later w (snd (perform exec R e w))"
    unfolding sn by (cases e) (simp_all add: later_call [OF ok] later_coordinator_abort)
  show "coordinator_ok w \<Longrightarrow> coordinator_ok (snd (perform exec R e w))"
    unfolding sn by (cases e) (simp_all add: coordinator_ok_call [OF ok] coordinator_ok_coordinator_abort)
  show "s < next_sig w \<Longrightarrow> current s w \<Longrightarrow> current s (snd (perform exec R e w))"
    unfolding sn
    by (cases e) (simp_all add: call_aborts_current [OF ok] current_def current_coordinator_abort [unfolded current_def])
  show "cleanup w \<noteq> None \<Longrightarrow> cleanup (snd (perform exec R e w)) \<noteq> None"
    unfolding sn by (cases e) (simp_all add: defined_call [OF ok] defined_coordinator_abort)
qed

lemma perform_all_ok:
  assumes ok: "exec_ok exec"
  shows "later w (snd (perform_all exec R effs w)) \<and>
         (coordinator_ok w \<longrightarrow> coordinator_ok (snd (perform_all exec R effs w))) \<and>
         (cleanup w \<noteq> None \<longrightarrow> cleanup (snd (perform_all exec R effs w)) \<noteq> None) \<and>
         (\<forall>s. s < next_sig w \<longrightarrow> current s w \<longrightarrow> current s (snd (perform_all exec R effs w)))"
proof (induction effs arbitrary: w)
  case Nil
  show ?case by simp
next
  case (Cons e es)
  obtain r w1 where p: "perform exec R e w = (r, w1)"
    by (cases "perform exec R e w")
  have l1: "later w w1" and k1: "coordinator_ok w \<Longrightarrow> coordinator_ok w1"
    and c1: "\<And>s. s < next_sig w \<Longrightarrow> current s w \<Longrightarrow> current s w1"
    and d1: "cleanup w \<noteq> None \<Longrightarrow> cleanup w1 \<noteq> None"
    using perform_ok [OF ok, where w = w and R = R and e = e] p by simp_all
  show ?case
  proof (cases r)
    case (Inl thrown)
    then show ?thesis
      using l1 k1 c1 d1 p by simp
  next
    case (Inr u)
    have sn: "snd (perform_all exec R (e # es) w) = snd (perform_all exec R es w1)"
      using p Inr by simp
    have ih: "later w1 (snd (perform_all exec R es w1))"
      "coordinator_ok w1 \<longrightarrow> coordinator_ok (snd (perform_all exec R es w1))"
      "cleanup w1 \<noteq> None \<longrightarrow> cleanup (snd (perform_all exec R es w1)) \<noteq> None"
      "\<forall>s. s < next_sig w1 \<longrightarrow> current s w1 \<longrightarrow> current s (snd (perform_all exec R es w1))"
      using Cons.IH [of w1] by simp_all
    have "\<And>s. s < next_sig w \<Longrightarrow> s < next_sig w1"
      using later_next_sig [OF l1] by simp
    then show ?thesis
      unfolding sn using later_trans [OF l1 ih(1)] k1 ih(2) d1 ih(3) c1 ih(4) by blast
  qed
qed

lemma exec_ok_perform_all: "exec_ok exec \<Longrightarrow> exec_ok (perform_all exec R)"
  using perform_all_ok [of exec] by (simp add: exec_ok_def)

lemma exec_ok_nested: "exec_ok (nested n R)"
proof (induction n)
  case 0
  show ?case
    by (simp add: exec_ok_def split: list.splits)
next
  case (Suc n)
  then show ?case
    by (simp add: exec_ok_perform_all)
qed

section \<open>Settled futures stay as they are\<close>

lemma current_emit [simp]: "current s (emit e w) = current s w"
  by (simp add: current_def)

lemma current_settle [simp]: "current s (settle_promise p st w) = current s w"
  by (simp add: current_def)

lemma current_getArg:
  "exec_ok exec \<Longrightarrow> s < next_sig w \<Longrightarrow> current s w \<Longrightarrow> current s (snd (getArg exec sid arg w))"
  by (simp add: getArg_snd exec_ok_current)

lemma current_listening: "current s w \<Longrightarrow> current s (listening sid arg w)"
  by (auto simp add: current_def)

lemma current_fun_call:
  assumes ok: "exec_ok exec" and s: "s < next_sig w" and c: "current s w"
  shows "current s (snd (fun_call exec R sid arg w))"
proof (cases "aborted (sigs w sid)")
  case True
  show ?thesis
    using c by (simp add: fun_call_aborted [OF True] current_def)
next
  case False
  have "current s (snd (exec (fst (R arg)) (listening sid arg w)))"
    using ok s current_listening [OF c] by (simp add: exec_ok_current)
  then show ?thesis
    by (auto simp add: fun_call_live [OF False] reject_def split: prod.splits sum.splits req_outcome.splits)
qed

lemma armed_settle: "armed s p w \<Longrightarrow> armed s p (settle_promise q st w)"
  by (auto simp add: armed_def settle_promise_proms)

text \<open>What a call of the wrapper instance leaves behind.\<close>

lemma fun_call_post:
  assumes ok: "exec_ok exec" and s: "sid < next_sig w"
  shows "next_prom w < next_prom (snd (fun_call exec R sid arg w))"
    and "proms (snd (fun_call exec R sid arg w)) (next_prom w) \<noteq> Resolved v"
    and "armed sid (next_prom w) (snd (fun_call exec R sid arg w))"
proof -
  let ?p = "next_prom w"
  let ?w' = "snd (fun_call exec R sid arg w)"
  have all: "?p < next_prom ?w' \<and> proms ?w' ?p \<noteq> Resolved v \<and> armed sid ?p ?w'"
  proof (cases "aborted (sigs w sid)")
    case True
    show ?thesis
      using s by (simp add: fun_call_aborted [OF True] armed_def)
  next
    case False
    let ?l = "listening sid arg w"
    let ?u = "snd (exec (fst (R arg)) ?l)"
    have al: "armed sid ?p ?l"
      using s False by (simp add: armed_def)
    have lu: "later ?l ?u"
      by (rule exec_ok_later [OF ok])
    have au: "armed sid ?p ?u"
      using lu al by (rule later_armed)
    have pu: "proms ?u ?p = Pending \<or> proms ?u ?p = Rejected abortError"
      using later_proms [OF lu, of ?p] by auto
    have nu: "?p < next_prom ?u"
      using au by (simp add: armed_def)
    have 1: "?p < next_prom (settle_promise ?p st ?u)" for st
      using nu by simp
    have 2: "proms (settle_promise ?p (Rejected e) ?u) ?p \<noteq> Resolved v" for e
      using pu by (auto simp add: settle_promise_proms)
    have 3: "armed sid ?p (settle_promise ?p st ?u)" for st
      using au by (rule armed_settle)
    show ?thesis
      using nu pu au 1 2 3
      by (auto simp add: fun_call_live [OF False] reject_def split: prod.splits sum.splits req_outcome.splits)
  qed
  show "?p < next_prom ?w'" "proms ?w' ?p \<noteq> Resolved v" "armed sid ?p ?w'"
    using all by simp_all
qed

text \<open>What a call of the coordinator leaves behind for the next one.\<close>

lemma call_fst:
  "fst (autoAbortExpiredRequest exec R arg w) =
     (case fst (getArg exec (next_sig w) arg (before_getArg w)) of
        Inl thrown \<Rightarrow> Inl thrown
      | Inr ra \<Rightarrow> Inr (next_prom (snd (getArg exec (next_sig w) arg (before_getArg w)))))"
  by (auto simp add: call_unfold split: prod.splits sum.splits)

lemma call_snd:
  "snd (autoAbortExpiredRequest exec R arg w) =
     (case fst (getArg exec (next_sig w) arg (before_getArg w)) of
        Inl thrown \<Rightarrow> snd (getArg exec (next_sig w) arg (before_getArg w))
      | Inr ra \<Rightarrow> snd (fun_call exec R (next_sig w) ra
                        (snd (getArg exec (next_sig w) arg (before_getArg w)))))"
  by (auto simp add: call_unfold split: prod.splits sum.splits)



text \<open>Settled futures stay as they are.\<close>

lemma step_next_prom_mono: "next_prom w \<le> next_prom (step n R a w)"
  by (cases a) (simp_all add: later_next_prom [OF later_call [OF exec_ok_nested]]
      later_next_prom [OF later_coordinator_abort] resolve_def reject_def)

lemma step_settled:
  "p < next_prom w \<Longrightarrow> proms w p \<noteq> Pending \<Longrightarrow> proms (step n R a w) p = proms w p"
  by (cases a) (auto simp add: later_settled [OF later_call [OF exec_ok_nested]]
      later_settled [OF later_coordinator_abort] later_settled [OF later_abort]
      resolve_def reject_def settle_promise_proms)

lemma run_Nil [simp]: "run n R [] w = w"
  by (simp add: run_def)

lemma run_Cons [simp]: "run n R (a # acts) w = run n R acts (step n R a w)"
  by (simp add: run_def)

lemma run_settled:
  "p < next_prom w \<Longrightarrow> proms w p \<noteq> Pending \<Longrightarrow> proms (run n R acts w) p = proms w p"
proof (induction acts arbitrary: w)
  case Nil
  show ?case by simp
next
  case (Cons a acts)
  have "p < next_prom (step n R a w)"
    using Cons.prems(1) step_next_prom_mono [of w n R a] by simp
  moreover have "proms (step n R a w) p = proms w p"
    using Cons.prems by (rule step_settled)
  ultimately show ?case
    using Cons.IH [of "step n R a w"] Cons.prems(2) by simp
qed

lemma issue_length [simp]: "length (fst (issue n R args w)) = length args"
  by (induction args arbitrary: w) (simp_all add: split_beta Let_def)





section \<open>Counting settlements\<close>

lemma trace_hd: "\<exists>ws. trace n R acts w = w # ws"
  by (cases acts) simp_all

lemma changes_trace_step:
  "changes (x # map f (trace n R acts w)) =
     (if x = f w then 0 else 1) + changes (map f (trace n R acts w))"
  using trace_hd [of n R acts w] by auto

lemma changes_settled:
  "p < next_prom w \<Longrightarrow> proms w p \<noteq> Pending \<Longrightarrow>
   changes (map (\<lambda>w. proms w p) (trace n R acts w)) = 0"
proof (induction acts arbitrary: w)
  case Nil
  show ?case by simp
next
  case (Cons a acts)
  have 1: "p < next_prom (step n R a w)"
    using Cons.prems(1) step_next_prom_mono [of w n R a] by simp
  have 2: "proms (step n R a w) p = proms w p"
    using Cons.prems by (rule step_settled)
  have "changes (map (\<lambda>w. proms w p) (trace n R acts (step n R a w))) = 0"
    using Cons.IH [OF 1] 2 Cons.prems(2) by simp
  then show ?case
    by (simp add: changes_trace_step 2)
qed

lemma changes_count:
  "p < next_prom w \<Longrightarrow>
   changes (map (\<lambda>w. proms w p) (trace n R acts w)) =
     (if proms w p = Pending \<and> proms (run n R acts w) p \<noteq> Pending then 1 else 0)"
proof (induction acts arbitrary: w)
  case Nil
  show ?case by simp
next
  case (Cons a acts)
  let ?w' = "step n R a w"
  have 1: "p < next_prom ?w'"
    using Cons.prems(1) step_next_prom_mono [of w n R a] by simp
  show ?case
  proof (cases "proms w p = Pending")
    case True
    show ?thesis
    proof (cases "proms ?w' p = Pending")
      case True
      then show ?thesis
        using Cons.IH [OF 1] \<open>proms w p = Pending\<close> by (simp add: changes_trace_step)
    next
      case False
      then show ?thesis
        using changes_settled [OF 1 False, of n R acts] run_settled [OF 1 False, of n R acts] True
        by (simp add: changes_trace_step)
    qed
  next
    case False
    then show ?thesis
      using changes_settled [OF Cons.prems False, of n R "a # acts"] by simp
  qed
qed

lemma armed_fun_call:
  "sid < next_sig w \<Longrightarrow>
   armed sid (fst (fun_call (nested n Rc) R sid arg w)) (snd (fun_call (nested n Rc) R sid arg w))"
  using fun_call_post(3) [OF exec_ok_nested] by simp

lemma armed_step: "armed sid p w \<Longrightarrow> armed sid p (step n R a w)"
  by (cases a) (simp_all add: later_armed [OF later_call [OF exec_ok_nested]]
      later_armed [OF later_coordinator_abort] later_armed [OF later_abort]
      resolve_def reject_def armed_settle)

lemma armed_run: "armed sid p w \<Longrightarrow> armed sid p (run n R acts w)"
  by (induction acts arbitrary: w) (simp_all add: armed_step)

lemma settling_step:
  "armed sid p w \<Longrightarrow> settles sid p a \<Longrightarrow> proms (step n R a w) p \<noteq> Pending"
  by (cases a) (auto simp add: armed_def abort_proms resolve_def reject_def
      settle_promise_proms)

lemma settling_run:
  "armed sid p w \<Longrightarrow> \<exists>a \<in> set acts. settles sid p a \<Longrightarrow> proms (run n R acts w) p \<noteq> Pending"
proof (induction acts arbitrary: w)
  case Nil
  then show ?case by simp
next
  case (Cons a acts)
  have ar: "armed sid p (step n R a w)"
    using Cons.prems(1) by (rule armed_step)
  show ?case
  proof (cases "settles sid p a")
    case True
    have 1: "proms (step n R a w) p \<noteq> Pending"
      using Cons.prems(1) True by (rule settling_step)
    have 2: "p < next_prom (step n R a w)"
      using ar by (simp add: armed_def)
    show ?thesis
      using run_settled [OF 2 1, of n R acts] 1 by simp
  next
    case False
    then have "\<exists>a \<in> set acts. settles sid p a"
      using Cons.prems(2) by auto
    then show ?thesis
      using Cons.IH [OF ar] by simp
  qed
qed

section \<open>The log of a call\<close>

lemma later_log: "later w w' \<Longrightarrow> \<exists>more. log w' = log w @ more"
  by (simp add: later_def)

lemma getArg_fst_quiet:
  assumes ok: "exec_ok exec" and q: "builder_actions arg sid = []"
  shows "getArg exec sid arg w =
           (builder_result arg sid,
            if is_function (arg0 arg) \<and> length arg = 1 then emit (BuilderCalled sid) w else w)"
proof (cases "is_function (arg0 arg) \<and> length arg = 1")
  case True
  then obtain nm f where a: "arg = [JFun nm f]"
    using builder_form_iff [of arg] by blast
  have "fst (f sid) = []"
    using q by (simp add: a builder_actions_def arg0_def)
  then show ?thesis
    unfolding a using exec_ok_Nil [OF ok]
    by (simp add: getArg_def builder_result_def arg0_def)
next
  case False
  have "builder_result arg sid = Inr arg"
    using False by (auto simp add: builder_result_def split: jsval.splits)
  then show ?thesis
    using False by (auto simp add: getArg_literal)
qed

lemma getArg_log:
  assumes ok: "exec_ok exec"
  shows "\<exists>bs. log (snd (getArg exec sid arg w)) =
           log w @ (if is_function (arg0 arg) \<and> length arg = 1 then BuilderCalled sid # bs else [])"
proof (cases "is_function (arg0 arg) \<and> length arg = 1")
  case True
  obtain bs where "log (snd (exec (builder_actions arg sid) (emit (BuilderCalled sid) w))) =
      log (emit (BuilderCalled sid) w) @ bs"
    using later_log [OF exec_ok_later [OF ok]] by blast
  then show ?thesis
    using True by (simp add: getArg_snd)
next
  case False
  then show ?thesis
    by (auto simp add: getArg_snd)
qed

lemma fun_call_log:
  assumes ok: "exec_ok exec"
  shows "\<exists>rs. log (snd (fun_call exec R sid arg w)) =
           log w @ Invoked sid arg # (if aborted (sigs w sid) then [] else RequestCalled arg # rs)"
proof (cases "aborted (sigs w sid)")
  case True
  show ?thesis
    using True by (simp add: fun_call_aborted [OF True])
next
  case False
  obtain r u where e: "exec (fst (R arg)) (listening sid arg w) = (r, u)"
    by (cases "exec (fst (R arg)) (listening sid arg w)")
  obtain rs where rs: "log u = log (listening sid arg w) @ rs"
    using later_log [OF exec_ok_later [OF ok, of "listening sid arg w" "fst (R arg)"]] e by auto
  have "log (snd (fun_call exec R sid arg w)) = log u"
    by (cases r; cases "snd (R arg)") (simp_all add: fun_call_live [OF False] e reject_def)
  then show ?thesis
    using False rs by simp
qed

lemma fun_call_quiet:
  assumes ok: "exec_ok exec" and live: "\<not> aborted (sigs w sid)" and q: "fst (R arg) = []"
  shows "snd (fun_call exec R sid arg w) =
           (case snd (R arg) of
              Throws e \<Rightarrow> reject (next_prom w) e (listening sid arg w)
            | ReturnsPromise \<Rightarrow> listening sid arg w)"
  using q exec_ok_Nil [OF ok] by (simp add: fun_call_live [OF live])

lemma events_of_call_shape:
  assumes ok: "exec_ok exec"
  shows "\<exists>bs rs. events_of_call exec R arg w =
           Constructed (next_sig w) #
           (case cleanup w of None \<Rightarrow> [] | Some c \<Rightarrow> [AbortCalled c]) @
           CleanupAssigned (next_sig w) #
           (if is_function (arg0 arg) \<and> length arg = 1 then BuilderCalled (next_sig w) # bs else []) @
           (case fst (getArg exec (next_sig w) arg (before_getArg w)) of
              Inl e \<Rightarrow> []
            | Inr ra \<Rightarrow> Invoked (next_sig w) ra #
                (if aborted (sigs (snd (getArg exec (next_sig w) arg (before_getArg w))) (next_sig w))
                 then [] else RequestCalled ra # rs))"
proof -
  let ?s = "next_sig w"
  let ?g = "getArg exec ?s arg (before_getArg w)"
  obtain bs where bs: "log (snd ?g) =
      log (before_getArg w) @ (if is_function (arg0 arg) \<and> length arg = 1 then BuilderCalled ?s # bs else [])"
    using getArg_log [OF ok] by blast
  show ?thesis
  proof (cases "fst ?g")
    case (Inl thrown)
    have "log (snd (autoAbortExpiredRequest exec R arg w)) = log (snd ?g)"
      by (simp add: call_snd Inl)
    then show ?thesis
      by (intro exI [of _ bs]) (simp add: events_of_call_def bs Inl)
  next
    case (Inr ra)
    obtain rs where rs: "log (snd (fun_call exec R ?s ra (snd ?g))) =
        log (snd ?g) @ Invoked ?s ra # (if aborted (sigs (snd ?g) ?s) then [] else RequestCalled ra # rs)"
      using fun_call_log [OF ok] by blast
    have "log (snd (autoAbortExpiredRequest exec R arg w)) = log (snd (fun_call exec R ?s ra (snd ?g)))"
      by (simp add: call_snd Inr)
    then show ?thesis
      by (intro exI [of _ bs] exI [of _ rs]) (simp add: events_of_call_def bs rs Inr)
  qed
qed

lemma coordinator_ok_fresh: "coordinator_ok w \<Longrightarrow> cleanup w \<noteq> Some (next_sig w)"
  by (auto simp add: coordinator_ok_def)

lemma call_quiet:
  assumes ok: "exec_ok exec" and c: "coordinator_ok w" and q: "quiet R arg (next_sig w)"
  shows "events_of_call exec R arg w =
           Constructed (next_sig w) #
           (case cleanup w of None \<Rightarrow> [] | Some c \<Rightarrow> [AbortCalled c]) @
           CleanupAssigned (next_sig w) #
           (if is_function (arg0 arg) \<and> length arg = 1 then [BuilderCalled (next_sig w)] else []) @
           (case builder_result arg (next_sig w) of
              Inl e \<Rightarrow> []
            | Inr ra \<Rightarrow> [Invoked (next_sig w) ra, RequestCalled ra])"
    and "fst (autoAbortExpiredRequest exec R arg w) =
           (case builder_result arg (next_sig w) of
              Inl e \<Rightarrow> Inl e
            | Inr ra \<Rightarrow> Inr (next_prom w))"
    and "\<not> aborted (sigs (snd (autoAbortExpiredRequest exec R arg w)) (next_sig w))"
    and "cleanup (snd (autoAbortExpiredRequest exec R arg w)) = Some (next_sig w)"
    and "next_sig (snd (autoAbortExpiredRequest exec R arg w)) = Suc (next_sig w)"
    and "\<And>ra. builder_result arg (next_sig w) = Inr ra \<Longrightarrow>
           proms (snd (autoAbortExpiredRequest exec R arg w)) (next_prom w) =
             (case snd (R ra) of Throws e \<Rightarrow> Rejected e | ReturnsPromise \<Rightarrow> Pending)"
proof -
  let ?s = "next_sig w"
  have qb: "builder_actions arg ?s = []"
    using q by (simp add: quiet_def)
  have fresh: "cleanup w \<noteq> Some ?s"
    using c by (rule coordinator_ok_fresh)
  define u where "u = (if is_function (arg0 arg) \<and> length arg = 1
                       then emit (BuilderCalled ?s) (before_getArg w) else before_getArg w)"
  have g: "getArg exec ?s arg (before_getArg w) = (builder_result arg ?s, u)"
    unfolding u_def using ok qb by (rule getArg_fst_quiet)
  have lu: "log u = log (before_getArg w) @
               (if is_function (arg0 arg) \<and> length arg = 1 then [BuilderCalled ?s] else [])"
    and su: "sigs u = sigs (before_getArg w)" and pu: "proms u = proms (before_getArg w)"
    and nu: "next_prom u = next_prom w" "next_sig u = Suc ?s" "cleanup u = Some ?s"
    by (simp_all add: u_def)
  have live: "\<not> aborted (sigs u ?s)"
    using fresh by (simp add: su before_getArg_aborted)
  have all: "events_of_call exec R arg w =
           Constructed ?s #
           (case cleanup w of None \<Rightarrow> [] | Some c \<Rightarrow> [AbortCalled c]) @
           CleanupAssigned ?s #
           (if is_function (arg0 arg) \<and> length arg = 1 then [BuilderCalled ?s] else []) @
           (case builder_result arg ?s of
              Inl e \<Rightarrow> []
            | Inr ra \<Rightarrow> [Invoked ?s ra, RequestCalled ra]) \<and>
         fst (autoAbortExpiredRequest exec R arg w) =
           (case builder_result arg ?s of Inl e \<Rightarrow> Inl e | Inr ra \<Rightarrow> Inr (next_prom w)) \<and>
         \<not> aborted (sigs (snd (autoAbortExpiredRequest exec R arg w)) ?s) \<and>
         cleanup (snd (autoAbortExpiredRequest exec R arg w)) = Some ?s \<and>
         next_sig (snd (autoAbortExpiredRequest exec R arg w)) = Suc ?s \<and>
         (\<forall>ra. builder_result arg ?s = Inr ra \<longrightarrow>
           proms (snd (autoAbortExpiredRequest exec R arg w)) (next_prom w) =
             (case snd (R ra) of Throws e \<Rightarrow> Rejected e | ReturnsPromise \<Rightarrow> Pending))"
  proof (cases "builder_result arg ?s")
    case (Inl e)
    show ?thesis
      using live by (simp add: events_of_call_def call_snd call_fst g Inl lu nu)
  next
    case (Inr ra)
    have qr: "fst (R ra) = []"
      using q by (simp add: quiet_def Inr)
    have f: "snd (fun_call exec R ?s ra u) =
           (case snd (R ra) of
              Throws e \<Rightarrow> reject (next_prom u) e (listening ?s ra u)
            | ReturnsPromise \<Rightarrow> listening ?s ra u)"
      using ok live qr by (rule fun_call_quiet)
    show ?thesis
      using live
      by (cases "snd (R ra)")
        (simp_all add: events_of_call_def call_snd call_fst g Inr f reject_def settle_promise_def
          lu nu su)
  qed
  show "events_of_call exec R arg w =
           Constructed (next_sig w) #
           (case cleanup w of None \<Rightarrow> [] | Some c \<Rightarrow> [AbortCalled c]) @
           CleanupAssigned (next_sig w) #
           (if is_function (arg0 arg) \<and> length arg = 1 then [BuilderCalled (next_sig w)] else []) @
           (case builder_result arg (next_sig w) of
              Inl e \<Rightarrow> []
            | Inr ra \<Rightarrow> [Invoked (next_sig w) ra, RequestCalled ra])"
    and "fst (autoAbortExpiredRequest exec R arg w) =
           (case builder_result arg (next_sig w) of
              Inl e \<Rightarrow> Inl e
            | Inr ra \<Rightarrow> Inr (next_prom w))"
    and "\<not> aborted (sigs (snd (autoAbortExpiredRequest exec R arg w)) (next_sig w))"
    and "cleanup (snd (autoAbortExpiredRequest exec R arg w)) = Some (next_sig w)"
    and "next_sig (snd (autoAbortExpiredRequest exec R arg w)) = Suc (next_sig w)"
    and "\<And>ra. builder_result arg (next_sig w) = Inr ra \<Longrightarrow>
           proms (snd (autoAbortExpiredRequest exec R arg w)) (next_prom w) =
             (case snd (R ra) of Throws e \<Rightarrow> Rejected e | ReturnsPromise \<Rightarrow> Pending)"
    using all by simp_all
qed

lemma call_quiet_cleanup:
  assumes ok: "exec_ok exec" and q: "quiet R arg (next_sig w)"
  shows "cleanup (snd (autoAbortExpiredRequest exec R arg w)) = Some (next_sig w)"
    and "next_sig (snd (autoAbortExpiredRequest exec R arg w)) = Suc (next_sig w)"
proof -
  let ?s = "next_sig w"
  have qb: "builder_actions arg ?s = []"
    using q by (simp add: quiet_def)
  define u where "u = (if is_function (arg0 arg) \<and> length arg = 1
                       then emit (BuilderCalled ?s) (before_getArg w) else before_getArg w)"
  have g: "getArg exec ?s arg (before_getArg w) = (builder_result arg ?s, u)"
    unfolding u_def using ok qb by (rule getArg_fst_quiet)
  have nu: "next_sig u = Suc ?s" "cleanup u = Some ?s"
    by (simp_all add: u_def)
  have both: "cleanup (snd (autoAbortExpiredRequest exec R arg w)) = Some ?s \<and>
              next_sig (snd (autoAbortExpiredRequest exec R arg w)) = Suc ?s"
  proof (cases "builder_result arg ?s")
    case (Inl e)
    show ?thesis
      by (simp add: call_snd g Inl nu)
  next
    case (Inr ra)
    have qr: "fst (R ra) = []"
      using q by (simp add: quiet_def Inr)
    show ?thesis
    proof (cases "aborted (sigs u ?s)")
      case True
      then show ?thesis
        by (simp add: call_snd g Inr fun_call_aborted nu)
    next
      case False
      have f: "snd (fun_call exec R ?s ra u) =
           (case snd (R ra) of
              Throws e \<Rightarrow> reject (next_prom u) e (listening ?s ra u)
            | ReturnsPromise \<Rightarrow> listening ?s ra u)"
        using ok False qr by (rule fun_call_quiet)
      show ?thesis
        by (cases "snd (R ra)")
          (simp_all add: call_snd g Inr f reject_def settle_promise_def nu)
    qed
  qed
  show "cleanup (snd (autoAbortExpiredRequest exec R arg w)) = Some (next_sig w)"
    and "next_sig (snd (autoAbortExpiredRequest exec R arg w)) = Suc (next_sig w)"
    using both by simp_all
qed

lemma call_current:
  assumes ok: "exec_ok exec"
  shows "current (next_sig w) (snd (autoAbortExpiredRequest exec R arg w))"
proof -
  let ?s = "next_sig w"
  let ?g = "getArg exec ?s arg (before_getArg w)"
  have "current ?s (before_getArg w)"
    by (simp add: current_def)
  then have cg: "current ?s (snd ?g)"
    using ok by (intro current_getArg) simp_all
  have sg: "?s < next_sig (snd ?g)"
    using later_next_sig [OF later_getArg [OF ok, of "before_getArg w" ?s arg]] by simp
  show ?thesis
  proof (cases "fst ?g")
    case (Inl thrown)
    then show ?thesis
      using cg by (simp add: call_snd)
  next
    case (Inr ra)
    then show ?thesis
      using current_fun_call [OF ok sg cg] by (simp add: call_snd)
  qed
qed

lemma call_next_sig: "exec_ok exec \<Longrightarrow> next_sig w < next_sig (snd (autoAbortExpiredRequest exec R arg w))"
  using later_next_sig [OF later_after_before_getArg, of exec w R arg] by simp

lemma coordinator_ok_created: "coordinator_ok (createAutoAbortExpiredRequest h)"
  by (simp add: coordinator_ok_def createAutoAbortExpiredRequest_def)

lemma coordinator_ok_step: "coordinator_ok w \<Longrightarrow> coordinator_ok (step n R a w)"
  by (cases a) (simp_all add: coordinator_ok_call [OF exec_ok_nested] coordinator_ok_coordinator_abort
      coordinator_ok_abort resolve_def reject_def)

lemma coordinator_ok_run: "coordinator_ok w \<Longrightarrow> coordinator_ok (run n R acts w)"
  by (induction acts arbitrary: w) (simp_all add: coordinator_ok_step)

section \<open>Superseded calls\<close>



text \<open>The same with a first call whose builder calls the coordinator before it returns:
  the call inside it gets the first future, the outer call the second, which is rejected
  at once; the third call rejects the future of the call inside.\<close>

lemma reentering_builder_is_superseded:
  "fst (issue (Suc 0) getDataAPI [[JFun ''argFun'' reenteringBuilder], [JNum 2]]
          (createAutoAbortExpiredRequest empty_heap)) = [Inr 1, Inr 2] \<and>
   proms (snd (issue (Suc 0) getDataAPI [[JFun ''argFun'' reenteringBuilder]]
                 (createAutoAbortExpiredRequest empty_heap))) 0 = Pending \<and>
   proms (snd (issue (Suc 0) getDataAPI [[JFun ''argFun'' reenteringBuilder]]
                 (createAutoAbortExpiredRequest empty_heap))) 1 = Rejected abortError \<and>
   proms (snd (issue (Suc 0) getDataAPI [[JFun ''argFun'' reenteringBuilder], [JNum 2]]
                 (createAutoAbortExpiredRequest empty_heap))) 0 = Rejected abortError \<and>
   proms (snd (issue (Suc 0) getDataAPI [[JFun ''argFun'' reenteringBuilder], [JNum 2]]
                 (createAutoAbortExpiredRequest empty_heap))) 2 = Pending"
  by (simp add: model_defs)

section \<open>The order of the bookkeeping\<close>

text \<open>
  C4. Two calls are issued back to back on one coordinator. When the second call
  returns, the signal of the first call's instance is aborted; it is aborted already in
  the state in which the second call resolves its arguments, and in the state in which
  it invokes its instance. When the first instance is still the remembered one, the
  second call starts by constructing its instance and calling the first instance's
  \<^verbatim>\<open>abort\<close>, so that no call of the underlying request comes before that; and it is
  the remembered one whenever the callbacks of the first call leave the coordinator
  alone.
\<close>

theorem previous_signal_aborted_before_next_request:
  fixes R :: request and n :: nat and arg1 arg2 :: "jsval list" and w0 :: world
  defines "exec \<equiv> nested n R"
  defines "s1 \<equiv> next_sig w0"
  defines "w1 \<equiv> snd (autoAbortExpiredRequest exec R arg1 w0)"
  defines "w2 \<equiv> snd (autoAbortExpiredRequest exec R arg2 w1)"
  shows "aborted (sigs w2 s1) \<and>
         aborted (sigs (before_getArg w1) s1) \<and>
         aborted (sigs (snd (getArg exec (next_sig w1) arg2 (before_getArg w1))) s1) \<and>
         (cleanup w1 = Some s1 \<longrightarrow>
            (\<exists>later. events_of_call exec R arg2 w1 =
                       Constructed (next_sig w1) # AbortCalled s1 # later) \<and>
            (\<forall>x. RequestCalled x \<notin>
                    set (takeWhile (\<lambda>e. e \<noteq> AbortCalled s1) (events_of_call exec R arg2 w1)))) \<and>
         (quiet R arg1 s1 \<longrightarrow> cleanup w1 = Some s1 \<and> next_sig w1 = Suc s1)"
proof -
  have ok: "exec_ok exec"
    unfolding exec_def by (rule exec_ok_nested)
  have c: "current s1 w1"
    unfolding s1_def w1_def by (rule call_current [OF ok])
  have n: "s1 < next_sig w1"
    unfolding s1_def w1_def by (rule call_next_sig [OF ok])
  have 2: "aborted (sigs (before_getArg w1) s1)"
    using c n by (auto simp add: before_getArg_aborted current_def)
  have nb: "s1 < next_sig (before_getArg w1)"
    using n by simp
  have 3: "aborted (sigs (snd (getArg exec (next_sig w1) arg2 (before_getArg w1))) s1)"
    using later_aborted [OF later_getArg [OF ok] nb 2] .
  have 1: "aborted (sigs w2 s1)"
    unfolding w2_def using later_aborted [OF later_after_before_getArg [OF ok] nb 2] .
  have 4: "(\<exists>later. events_of_call exec R arg2 w1 =
                       Constructed (next_sig w1) # AbortCalled s1 # later) \<and>
            (\<forall>x. RequestCalled x \<notin>
                    set (takeWhile (\<lambda>e. e \<noteq> AbortCalled s1) (events_of_call exec R arg2 w1)))"
    if cl: "cleanup w1 = Some s1"
  proof -
    obtain bs rs where "events_of_call exec R arg2 w1 =
           Constructed (next_sig w1) #
           (case cleanup w1 of None \<Rightarrow> [] | Some c \<Rightarrow> [AbortCalled c]) @
           CleanupAssigned (next_sig w1) #
           (if is_function (arg0 arg2) \<and> length arg2 = 1 then BuilderCalled (next_sig w1) # bs else []) @
           (case fst (getArg exec (next_sig w1) arg2 (before_getArg w1)) of
              Inl e \<Rightarrow> []
            | Inr ra \<Rightarrow> Invoked (next_sig w1) ra #
                (if aborted (sigs (snd (getArg exec (next_sig w1) arg2 (before_getArg w1))) (next_sig w1))
                 then [] else RequestCalled ra # rs))"
      using events_of_call_shape [OF ok] by blast
    then have ev: "\<exists>later. events_of_call exec R arg2 w1 =
                       Constructed (next_sig w1) # AbortCalled s1 # later"
      by (simp add: cl)
    then obtain later where l: "events_of_call exec R arg2 w1 =
                       Constructed (next_sig w1) # AbortCalled s1 # later"
      by blast
    have "\<forall>x. RequestCalled x \<notin>
                    set (takeWhile (\<lambda>e. e \<noteq> AbortCalled s1) (events_of_call exec R arg2 w1))"
      by (simp add: l)
    then show ?thesis
      using ev by blast
  qed
  have 5: "cleanup w1 = Some s1 \<and> next_sig w1 = Suc s1" if "quiet R arg1 s1"
    using call_quiet_cleanup [OF ok, of R arg1 w0] that by (simp add: w1_def s1_def)
  show ?thesis
    using 1 2 3 4 5 by blast
qed

theorem previous_signal_aborted_before_next_request_witness:
  "quiet getDataAPI [JNum 1] 0 \<and>
   cleanup (snd (autoAbortExpiredRequest (nested (Suc 0) getDataAPI) getDataAPI [JNum 1]
        (createAutoAbortExpiredRequest empty_heap))) = Some 0 \<and>
   \<not> aborted (sigs (snd (autoAbortExpiredRequest (nested (Suc 0) getDataAPI) getDataAPI [JNum 1]
        (createAutoAbortExpiredRequest empty_heap))) 0) \<and>
   aborted (sigs (snd (autoAbortExpiredRequest (nested (Suc 0) getDataAPI) getDataAPI
      [JFun ''argFun'' withSignal]
      (snd (autoAbortExpiredRequest (nested (Suc 0) getDataAPI) getDataAPI [JNum 1]
              (createAutoAbortExpiredRequest empty_heap))))) 0) \<and>
   events_of_call (nested (Suc 0) getDataAPI) getDataAPI [JFun ''argFun'' withSignal]
      (snd (autoAbortExpiredRequest (nested (Suc 0) getDataAPI) getDataAPI [JNum 1]
              (createAutoAbortExpiredRequest empty_heap)))
     = [Constructed 1, AbortCalled 0, CleanupAssigned 1, BuilderCalled 1,
        Invoked 1 [JObj [(''signal'', JSignal 1)]], RequestCalled [JObj [(''signal'', JSignal 1)]]]"
proof -
  let ?w0 = "createAutoAbortExpiredRequest empty_heap"
  let ?w1 = "snd (autoAbortExpiredRequest (nested (Suc 0) getDataAPI) getDataAPI [JNum 1] ?w0)"
  have n: "next_sig ?w0 = 0"
    by (simp add: model_defs)
  have q: "quiet getDataAPI [JNum 1] 0"
    by (simp add: model_defs)
  have before: "\<not> aborted (sigs ?w1 0)"
    by (simp add: model_defs)
  have evs: "events_of_call (nested (Suc 0) getDataAPI) getDataAPI [JFun ''argFun'' withSignal] ?w1
     = [Constructed 1, AbortCalled 0, CleanupAssigned 1, BuilderCalled 1,
        Invoked 1 [JObj [(''signal'', JSignal 1)]], RequestCalled [JObj [(''signal'', JSignal 1)]]]"
    by (simp add: model_defs)
  have "aborted (sigs (snd (autoAbortExpiredRequest (nested (Suc 0) getDataAPI) getDataAPI
                  [JFun ''argFun'' withSignal] ?w1)) 0) \<and> cleanup ?w1 = Some 0"
    using previous_signal_aborted_before_next_request
      [where R = getDataAPI and n = "Suc 0" and ?arg1.0 = "[JNum 1]"
         and ?arg2.0 = "[JFun ''argFun'' withSignal]" and ?w0.0 = ?w0] q
    unfolding n by blast
  then show ?thesis
    using q before evs by simp
qed

text \<open>
  C5. The bookkeeping of a call runs in the order of the code: construct the new wrapper
  instance, call the \<^verbatim>\<open>abort\<close> of the recorded instance (if there is one), record the new
  instance in \<^verbatim>\<open>cleanup\<close>, resolve the arguments (calling the builder with the new
  signal in the single callable form), invoke the new instance, which calls the
  underlying request unless the builder has aborted the instance; the call returns the
  future, or throws what the builder threw. What the builder and the request do to the
  coordinator is logged where they run, after \<open>BuilderCalled\<close> and after
  \<open>RequestCalled\<close>; when they leave it alone the log of the call is these events and
  no others.
\<close>

theorem bookkeeping_order:
  fixes R :: request and n :: nat and arg :: "jsval list" and w :: world
  defines "exec \<equiv> nested n R"
  defines "s \<equiv> next_sig w"
  defines "g \<equiv> getArg exec s arg (before_getArg w)"
  assumes c: "coordinator_ok w"
  shows "(\<exists>bs rs. events_of_call exec R arg w =
           Constructed s #
           (case cleanup w of None \<Rightarrow> [] | Some c \<Rightarrow> [AbortCalled c]) @
           CleanupAssigned s #
           (if is_function (arg0 arg) \<and> length arg = 1 then BuilderCalled s # bs else []) @
           (case fst g of
              Inl e \<Rightarrow> []
            | Inr ra \<Rightarrow> Invoked s ra # (if aborted (sigs (snd g) s) then [] else RequestCalled ra # rs))) \<and>
         fst (autoAbortExpiredRequest exec R arg w) =
           (case fst g of Inl e \<Rightarrow> Inl e | Inr ra \<Rightarrow> Inr (next_prom (snd g))) \<and>
         (quiet R arg s \<longrightarrow>
            events_of_call exec R arg w =
              Constructed s #
              (case cleanup w of None \<Rightarrow> [] | Some c \<Rightarrow> [AbortCalled c]) @
              CleanupAssigned s #
              (if is_function (arg0 arg) \<and> length arg = 1 then [BuilderCalled s] else []) @
              (case builder_result arg s of
                 Inl e \<Rightarrow> []
               | Inr ra \<Rightarrow> [Invoked s ra, RequestCalled ra]) \<and>
            fst (autoAbortExpiredRequest exec R arg w) =
              (case builder_result arg s of Inl e \<Rightarrow> Inl e | Inr ra \<Rightarrow> Inr (next_prom w)))"
proof -
  have ok: "exec_ok exec"
    unfolding exec_def by (rule exec_ok_nested)
  have 1: "\<exists>bs rs. events_of_call exec R arg w =
           Constructed s #
           (case cleanup w of None \<Rightarrow> [] | Some c \<Rightarrow> [AbortCalled c]) @
           CleanupAssigned s #
           (if is_function (arg0 arg) \<and> length arg = 1 then BuilderCalled s # bs else []) @
           (case fst g of
              Inl e \<Rightarrow> []
            | Inr ra \<Rightarrow> Invoked s ra # (if aborted (sigs (snd g) s) then [] else RequestCalled ra # rs))"
    unfolding g_def s_def by (rule events_of_call_shape [OF ok])
  have 2: "fst (autoAbortExpiredRequest exec R arg w) =
           (case fst g of Inl e \<Rightarrow> Inl e | Inr ra \<Rightarrow> Inr (next_prom (snd g)))"
    unfolding g_def s_def by (rule call_fst)
  have 3: "events_of_call exec R arg w =
              Constructed s #
              (case cleanup w of None \<Rightarrow> [] | Some c \<Rightarrow> [AbortCalled c]) @
              CleanupAssigned s #
              (if is_function (arg0 arg) \<and> length arg = 1 then [BuilderCalled s] else []) @
              (case builder_result arg s of
                 Inl e \<Rightarrow> []
               | Inr ra \<Rightarrow> [Invoked s ra, RequestCalled ra]) \<and>
            fst (autoAbortExpiredRequest exec R arg w) =
              (case builder_result arg s of Inl e \<Rightarrow> Inl e | Inr ra \<Rightarrow> Inr (next_prom w))"
    if q: "quiet R arg s"
    using call_quiet(1,2) [OF ok c, of R arg] q unfolding s_def by simp
  show ?thesis
    using 1 2 3 by blast
qed

theorem bookkeeping_order_witness:
  "coordinator_ok (snd (autoAbortExpiredRequest (nested (Suc 0) getDataAPI) getDataAPI [JNum 1]
      (createAutoAbortExpiredRequest empty_heap))) \<and>
   quiet getDataAPI [JFun ''argFun'' withSignal] 1 \<and>
   events_of_call (nested (Suc 0) getDataAPI) getDataAPI [JFun ''argFun'' withSignal]
      (snd (autoAbortExpiredRequest (nested (Suc 0) getDataAPI) getDataAPI [JNum 1]
              (createAutoAbortExpiredRequest empty_heap)))
     = [Constructed 1, AbortCalled 0, CleanupAssigned 1, BuilderCalled 1,
        Invoked 1 [JObj [(''signal'', JSignal 1)]], RequestCalled [JObj [(''signal'', JSignal 1)]]] \<and>
   fst (autoAbortExpiredRequest (nested (Suc 0) getDataAPI) getDataAPI [JFun ''argFun'' withSignal]
      (snd (autoAbortExpiredRequest (nested (Suc 0) getDataAPI) getDataAPI [JNum 1]
              (createAutoAbortExpiredRequest empty_heap))))
     = Inr 1"
proof -
  let ?w = "snd (autoAbortExpiredRequest (nested (Suc 0) getDataAPI) getDataAPI [JNum 1]
              (createAutoAbortExpiredRequest empty_heap))"
  have ok: "coordinator_ok ?w"
    by (rule coordinator_ok_call [OF exec_ok_nested])
  have n: "next_sig ?w = 1" "next_prom ?w = 1" "cleanup ?w = Some 0"
    by (simp_all add: model_defs)
  have q: "quiet getDataAPI [JFun ''argFun'' withSignal] 1"
    by (simp add: model_defs)
  have q': "quiet getDataAPI [JFun ''argFun'' withSignal] (next_sig ?w)"
    unfolding n by (rule q)
  note th = bookkeeping_order [OF ok, where R = getDataAPI and n = "Suc 0"
              and arg = "[JFun ''argFun'' withSignal]", THEN conjunct2, THEN conjunct2, THEN mp, OF q']
  have "events_of_call (nested (Suc 0) getDataAPI) getDataAPI [JFun ''argFun'' withSignal] ?w
     = [Constructed 1, AbortCalled 0, CleanupAssigned 1, BuilderCalled 1,
        Invoked 1 [JObj [(''signal'', JSignal 1)]], RequestCalled [JObj [(''signal'', JSignal 1)]]] \<and>
   fst (autoAbortExpiredRequest (nested (Suc 0) getDataAPI) getDataAPI [JFun ''argFun'' withSignal] ?w)
     = Inr 1"
    using th unfolding n
    by (simp del: nested.simps
          add: arg0_def builder_result_def builder_actions_def withSignal_def)
  then show ?thesis
    using ok q by (simp del: nested.simps)
qed

text \<open>
  The order in which the specification lists the steps is another one: on a second call
  with a builder, the code constructs before it cancels and records before it resolves
  the arguments.
\<close>

theorem bookkeeping_not_in_specified_order:
  "events_of_call (nested (Suc 0) getDataAPI) getDataAPI [JFun ''argFun'' withSignal]
      (snd (autoAbortExpiredRequest (nested (Suc 0) getDataAPI) getDataAPI [JNum 1]
              (createAutoAbortExpiredRequest empty_heap)))
     = [Constructed 1, AbortCalled 0, CleanupAssigned 1, BuilderCalled 1,
        Invoked 1 [JObj [(''signal'', JSignal 1)]], RequestCalled [JObj [(''signal'', JSignal 1)]]] \<and>
   events_as_specified [JFun ''argFun'' withSignal]
      (snd (autoAbortExpiredRequest (nested (Suc 0) getDataAPI) getDataAPI [JNum 1]
              (createAutoAbortExpiredRequest empty_heap)))
     = [AbortCalled 0, Constructed 1, BuilderCalled 1, CleanupAssigned 1,
        Invoked 1 [JObj [(''signal'', JSignal 1)]], RequestCalled [JObj [(''signal'', JSignal 1)]]] \<and>
   events_of_call (nested (Suc 0) getDataAPI) getDataAPI [JFun ''argFun'' withSignal]
      (snd (autoAbortExpiredRequest (nested (Suc 0) getDataAPI) getDataAPI [JNum 1]
              (createAutoAbortExpiredRequest empty_heap)))
     \<noteq> events_as_specified [JFun ''argFun'' withSignal]
      (snd (autoAbortExpiredRequest (nested (Suc 0) getDataAPI) getDataAPI [JNum 1]
              (createAutoAbortExpiredRequest empty_heap)))"
  by (simp add: model_defs)

text \<open>That the instance is recorded before the builder runs shows when the builder calls
  \<^verbatim>\<open>c.abort()\<close>: it aborts the instance of its own call, and the request is not called.\<close>

lemma builder_aborts_its_own_call:
  "events_of_call (nested (Suc 0) getDataAPI) getDataAPI [JFun ''argFun'' abortingBuilder]
      (createAutoAbortExpiredRequest empty_heap)
     = [Constructed 0, CleanupAssigned 0, BuilderCalled 0, AbortCalled 0,
        Invoked 0 [JObj [(''signal'', JSignal 0)]]] \<and>
   autoAbortExpiredRequest (nested (Suc 0) getDataAPI) getDataAPI [JFun ''argFun'' abortingBuilder]
      (createAutoAbortExpiredRequest empty_heap)
     = autoAbortExpiredRequest (nested (Suc 0) getDataAPI) brokenAPI [JFun ''argFun'' abortingBuilder]
      (createAutoAbortExpiredRequest empty_heap) \<and>
   proms (snd (autoAbortExpiredRequest (nested (Suc 0) getDataAPI) getDataAPI
      [JFun ''argFun'' abortingBuilder] (createAutoAbortExpiredRequest empty_heap))) 0
     = Rejected abortError"
  by (simp add: model_defs)

section \<open>The argument forms\<close>



section \<open>The wrapper instance\<close>

text \<open>
  C6. The future of a wrapper call changes state exactly once if it ends settled and
  never otherwise, counted from its creation along any sequence of actions; it ends
  settled whenever the sequence holds an abort of its instance or a completion of its
  underlying request; and \<^verbatim>\<open>abort\<close> returns normally in every state passed.
\<close>

theorem wrapper_future_settles_exactly_once:
  fixes R :: request and n sid :: nat and arg :: "jsval list" and w0 :: world
    and acts :: "action list"
  defines "p \<equiv> fst (fun_call (nested n R) R sid arg w0)"
  defines "w1 \<equiv> snd (fun_call (nested n R) R sid arg w0)"
  assumes sid: "sid < next_sig w0"
  shows "changes (Pending # map (\<lambda>w. proms w p) (trace n R acts w1)) =
           (if proms (run n R acts w1) p = Pending then 0 else 1) \<and>
         ((\<exists>a \<in> set acts. settles sid p a) \<longrightarrow> proms (run n R acts w1) p \<noteq> Pending) \<and>
         (\<forall>w \<in> set (trace n R acts w1). fst (abort sid w) = Inr ())"
proof -
  have ar: "armed sid p w1"
    unfolding p_def w1_def using sid by (rule armed_fun_call)
  then have alloc: "p < next_prom w1"
    by (simp add: armed_def)
  have keep: "proms (run n R acts w1) p = proms w1 p" if "proms w1 p \<noteq> Pending"
    using alloc that by (rule run_settled)
  have "changes (Pending # map (\<lambda>w. proms w p) (trace n R acts w1)) =
          (if Pending = proms w1 p then 0 else 1) +
          (if proms w1 p = Pending \<and> proms (run n R acts w1) p \<noteq> Pending then 1 else 0)"
    by (simp only: changes_trace_step changes_count [OF alloc])
  then have 1: "changes (Pending # map (\<lambda>w. proms w p) (trace n R acts w1)) =
           (if proms (run n R acts w1) p = Pending then 0 else 1)"
    using keep by (cases "proms w1 p = Pending") auto
  have 2: "(\<exists>a \<in> set acts. settles sid p a) \<longrightarrow> proms (run n R acts w1) p \<noteq> Pending"
    using settling_run [OF ar] by blast
  show ?thesis
    using 1 2 by simp
qed

theorem wrapper_future_settles_exactly_once_witness:
  "0 < next_sig (snd (createAbortAbleRequest empty_heap)) \<and>
   fst (fun_call (nested (Suc 0) getDataAPI) getDataAPI 0 [JNum 1]
          (snd (createAbortAbleRequest empty_heap))) = 0 \<and>
   (\<exists>a \<in> set [WrapAbort 0, Fulfil 0 (JNum 7), WrapAbort 0]. settles 0 0 a) \<and>
   changes (Pending # map (\<lambda>w. proms w 0)
      (trace (Suc 0) getDataAPI [WrapAbort 0, Fulfil 0 (JNum 7), WrapAbort 0]
         (snd (fun_call (nested (Suc 0) getDataAPI) getDataAPI 0 [JNum 1]
                 (snd (createAbortAbleRequest empty_heap)))))) = 1 \<and>
   proms (run (Suc 0) getDataAPI [WrapAbort 0, Fulfil 0 (JNum 7), WrapAbort 0]
         (snd (fun_call (nested (Suc 0) getDataAPI) getDataAPI 0 [JNum 1]
                 (snd (createAbortAbleRequest empty_heap))))) 0
     = Rejected abortError \<and>
   proms (run (Suc 0) getDataAPI [Fulfil 0 (JNum 7), WrapAbort 0, WrapAbort 0]
         (snd (fun_call (nested (Suc 0) getDataAPI) getDataAPI 0 [JNum 1]
                 (snd (createAbortAbleRequest empty_heap))))) 0
     = Resolved (JNum 7)"
proof -
  let ?w0 = "snd (createAbortAbleRequest empty_heap)"
  let ?w1 = "snd (fun_call (nested (Suc 0) getDataAPI) getDataAPI 0 [JNum 1] ?w0)"
  let ?acts = "[WrapAbort 0, Fulfil 0 (JNum 7), WrapAbort 0]"
  have sid: "0 < next_sig ?w0"
    by simp
  have p: "fst (fun_call (nested (Suc 0) getDataAPI) getDataAPI 0 [JNum 1] ?w0) = 0"
    by (simp add: model_defs)
  have hit: "\<exists>a \<in> set ?acts. settles 0 0 a"
    by simp
  have count: "changes (Pending # map (\<lambda>w. proms w 0) (trace (Suc 0) getDataAPI ?acts ?w1)) =
                 (if proms (run (Suc 0) getDataAPI ?acts ?w1) 0 = Pending then 0 else 1)"
    and settled: "(\<exists>a \<in> set ?acts. settles 0 0 a)
                    \<longrightarrow> proms (run (Suc 0) getDataAPI ?acts ?w1) 0 \<noteq> Pending"
    using wrapper_future_settles_exactly_once
            [OF sid, where R = getDataAPI and n = "Suc 0" and arg = "[JNum 1]" and acts = ?acts]
    unfolding p by blast+
  have once: "changes (Pending # map (\<lambda>w. proms w 0) (trace (Suc 0) getDataAPI ?acts ?w1)) = 1"
    using count settled hit by simp
  have a: "proms (run (Suc 0) getDataAPI ?acts ?w1) 0 = Rejected abortError"
    by (simp add: model_defs)
  have b: "proms (run (Suc 0) getDataAPI [Fulfil 0 (JNum 7), WrapAbort 0, WrapAbort 0] ?w1) 0
             = Resolved (JNum 7)"
    by (simp add: model_defs)
  show ?thesis
    using sid p hit once a b by blast
qed

text \<open>
  C7. Invoked on a token that is aborted already, the wrapper returns a future rejected
  with the AbortError, which the classifier recognises; the underlying request is not
  called, and the outcome depends neither on it nor on what callbacks could do.
\<close>

theorem invoke_on_aborted_token_rejects:
  assumes "aborted (sigs w sid)"
  shows "proms (snd (fun_call exec R sid arg w)) (fst (fun_call exec R sid arg w)) = Rejected abortError \<and>
         isAbortError abortError = Inr True \<and>
         log (snd (fun_call exec R sid arg w)) = log w @ [Invoked sid arg] \<and>
         fun_call exec R sid arg w = fun_call exec' R' sid arg w"
proof -
  have 1: "proms (snd (fun_call exec R sid arg w)) (fst (fun_call exec R sid arg w)) = Rejected abortError"
    by (simp add: fun_call_aborted [OF assms])
  have 2: "isAbortError abortError = Inr True"
    by (simp add: isAbortError_def abortError_def)
  have 3: "log (snd (fun_call exec R sid arg w)) = log w @ [Invoked sid arg]"
    by (simp add: fun_call_aborted [OF assms])
  have 4: "fun_call exec R sid arg w = fun_call exec' R' sid arg w"
    by (simp add: fun_call_aborted [OF assms])
  show ?thesis
    using 1 2 3 4 by simp
qed

theorem invoke_on_aborted_token_rejects_witness:
  "aborted (sigs (snd (abort 0 (snd (createAbortAbleRequest empty_heap)))) 0) \<and>
   proms (snd (fun_call (nested (Suc 0) selfAbortingAPI) selfAbortingAPI 0 [JNum 1]
                 (snd (abort 0 (snd (createAbortAbleRequest empty_heap))))))
     0 = Rejected abortError \<and>
   log (snd (fun_call (nested (Suc 0) selfAbortingAPI) selfAbortingAPI 0 [JNum 1]
               (snd (abort 0 (snd (createAbortAbleRequest empty_heap))))))
     = [Constructed 0, AbortCalled 0, Invoked 0 [JNum 1]]"
proof -
  let ?w = "snd (abort 0 (snd (createAbortAbleRequest empty_heap)))"
  have ab: "aborted (sigs ?w 0)"
    by (simp add: abort_aborted)
  have p: "fst (fun_call (nested (Suc 0) selfAbortingAPI) selfAbortingAPI 0 [JNum 1] ?w) = 0"
    and l: "log ?w = [Constructed 0, AbortCalled 0]"
    by (simp_all add: model_defs)
  note t = invoke_on_aborted_token_rejects
            [OF ab, where exec = "nested (Suc 0) selfAbortingAPI" and R = selfAbortingAPI
               and arg = "[JNum 1]" and exec' = "nested 0 getDataAPI" and R' = getDataAPI]
  show ?thesis
    using t [THEN conjunct1] t [THEN conjunct2, THEN conjunct2, THEN conjunct1] ab
    unfolding p l by (simp del: nested.simps)
qed

text \<open>
  C8. When the underlying request throws instead of returning a promise, the wrapper
  call still returns a future, and that future is rejected with the thrown value. This
  is so for every request that leaves the coordinator alone before it throws. One that
  calls the coordinator first ends with its future rejected as well: with what was
  thrown, by it or by what it called, or with the AbortError when what it called
  aborted its own instance.
\<close>

theorem synchronous_throw_rejects_the_future:
  fixes R Rc :: request and n :: nat
  defines "exec \<equiv> nested n Rc"
  assumes live: "\<not> aborted (sigs w sid)" and thr: "snd (R arg) = Throws e"
  shows "(fst (R arg) = [] \<longrightarrow>
            proms (snd (fun_call exec R sid arg w)) (fst (fun_call exec R sid arg w)) = Rejected e \<and>
            log (snd (fun_call exec R sid arg w)) = log w @ [Invoked sid arg, RequestCalled arg]) \<and>
         (proms (snd (fun_call exec R sid arg w)) (fst (fun_call exec R sid arg w)) =
            Rejected (case fst (exec (fst (R arg)) (listening sid arg w)) of
                        Inl thrown \<Rightarrow> thrown | Inr u \<Rightarrow> e) \<or>
          proms (snd (fun_call exec R sid arg w)) (fst (fun_call exec R sid arg w)) =
            Rejected abortError)"
proof -
  have ok: "exec_ok exec"
    unfolding exec_def by (rule exec_ok_nested)
  let ?p = "next_prom w"
  let ?l = "listening sid arg w"
  obtain r u where e: "exec (fst (R arg)) ?l = (r, u)"
    by (cases "exec (fst (R arg)) ?l")
  have lu: "later ?l u"
    using exec_ok_later [OF ok, of ?l "fst (R arg)"] e by simp
  have pu: "proms u ?p = Pending \<or> proms u ?p = Rejected abortError"
    using later_proms [OF lu, of ?p] by auto
  have 1: "proms (snd (fun_call exec R sid arg w)) ?p = Rejected e \<and>
           log (snd (fun_call exec R sid arg w)) = log w @ [Invoked sid arg, RequestCalled arg]"
    if "fst (R arg) = []"
    using that thr exec_ok_Nil [OF ok]
    by (simp add: fun_call_live [OF live] reject_def settle_promise_def)
  have 2: "proms (snd (fun_call exec R sid arg w)) ?p =
            Rejected (case r of Inl thrown \<Rightarrow> thrown | Inr u \<Rightarrow> e) \<or>
           proms (snd (fun_call exec R sid arg w)) ?p = Rejected abortError"
    using pu thr
    by (cases r) (auto simp add: fun_call_live [OF live] e reject_def settle_promise_proms)
  show ?thesis
    using 1 2 by (simp add: e)
qed

theorem synchronous_throw_rejects_the_future_witness:
  "\<not> aborted (sigs (snd (createAbortAbleRequest empty_heap)) 0) \<and>
   snd (brokenAPI [JNum 1]) = Throws (JStr ''offline'') \<and>
   fst (brokenAPI [JNum 1]) = [] \<and>
   fst (fun_call (nested (Suc 0) getDataAPI) brokenAPI 0 [JNum 1]
          (snd (createAbortAbleRequest empty_heap))) = 0 \<and>
   proms (snd (fun_call (nested (Suc 0) getDataAPI) brokenAPI 0 [JNum 1]
                 (snd (createAbortAbleRequest empty_heap)))) 0
     = Rejected (JStr ''offline'') \<and>
   log (snd (fun_call (nested (Suc 0) getDataAPI) brokenAPI 0 [JNum 1]
               (snd (createAbortAbleRequest empty_heap))))
     = [Constructed 0, Invoked 0 [JNum 1], RequestCalled [JNum 1]]"
proof -
  let ?w = "snd (createAbortAbleRequest empty_heap)"
  have live: "\<not> aborted (sigs ?w 0)"
    by (simp add: empty_heap_def)
  have thr: "snd (brokenAPI [JNum 1]) = Throws (JStr ''offline'')"
    and quiet: "fst (brokenAPI [JNum 1]) = []"
    by (simp_all add: brokenAPI_def)
  have p: "fst (fun_call (nested (Suc 0) getDataAPI) brokenAPI 0 [JNum 1] ?w) = 0"
    and l: "log ?w = [Constructed 0]"
    by (simp_all add: model_defs)
  note t = synchronous_throw_rejects_the_future
             [where w = ?w and sid = 0 and R = brokenAPI and arg = "[JNum 1]"
                and e = "JStr ''offline''" and n = "Suc 0" and Rc = getDataAPI,
              OF live thr, THEN conjunct1, THEN mp, OF quiet]
  show ?thesis
    using t live thr quiet p unfolding p l by simp
qed

text \<open>A request that calls \<^verbatim>\<open>c.abort()\<close> before it throws, invoked by the coordinator:
  its future is rejected with the AbortError and not with what it threw.\<close>

lemma self_aborting_request:
  "fst (autoAbortExpiredRequest (nested (Suc 0) selfAbortingAPI) selfAbortingAPI [JNum 1]
          (createAutoAbortExpiredRequest empty_heap)) = Inr 0 \<and>
   proms (snd (autoAbortExpiredRequest (nested (Suc 0) selfAbortingAPI) selfAbortingAPI [JNum 1]
          (createAutoAbortExpiredRequest empty_heap))) 0 = Rejected abortError \<and>
   log (snd (autoAbortExpiredRequest (nested (Suc 0) selfAbortingAPI) selfAbortingAPI [JNum 1]
          (createAutoAbortExpiredRequest empty_heap)))
     = [Constructed 0, CleanupAssigned 0, Invoked 0 [JNum 1], RequestCalled [JNum 1], AbortCalled 0]"
  by (simp add: model_defs)

text \<open>The same seen from the coordinator, for callbacks that leave it alone: its call
  returns the rejected future.\<close>

lemma coordinator_call_survives_throw:
  assumes "coordinator_ok w" and "quiet R arg (next_sig w)"
    and "builder_result arg (next_sig w) = Inr ra" and "snd (R ra) = Throws e"
  shows "fst (autoAbortExpiredRequest (nested n R) R arg w) = Inr (next_prom w) \<and>
         proms (snd (autoAbortExpiredRequest (nested n R) R arg w)) (next_prom w) = Rejected e"
proof -
  have ok: "exec_ok (nested n R)"
    by (rule exec_ok_nested)
  show ?thesis
    using call_quiet(2) [OF ok assms(1) assms(2)] call_quiet(6) [OF ok assms(1) assms(2) assms(3)]
      assms(3) assms(4)
    by simp
qed

section \<open>Fresh tokens\<close>

text \<open>
  C10. After any history of a coordinator, whatever its callbacks did, the next call
  constructs a token that is not aborted, and that is still not aborted when the
  call starts to resolve its arguments. It stays so while the arguments are resolved
  unless the builder of this very call acts on the coordinator. With the token not
  aborted after that, the request is called on the resolved arguments, and when the
  request leaves the coordinator alone the token is not aborted when the call returns
  and the returned future is pending, or rejected with what the request threw. A call
  whose callbacks leave the coordinator alone thus proceeds as on a new coordinator.
\<close>

theorem every_call_starts_unaborted:
  fixes R :: request and n :: nat and acts :: "action list" and h :: world and arg :: "jsval list"
  defines "exec \<equiv> nested n R"
  defines "w \<equiv> run n R acts (createAutoAbortExpiredRequest h)"
  defines "s \<equiv> fst (createAbortAbleRequest w)"
  defines "g \<equiv> getArg exec s arg (before_getArg w)"
  defines "w' \<equiv> snd (autoAbortExpiredRequest exec R arg w)"
  shows "\<not> aborted (sigs (snd (createAbortAbleRequest w)) s) \<and>
         \<not> aborted (sigs (before_getArg w) s) \<and>
         (builder_actions arg s = [] \<longrightarrow> \<not> aborted (sigs (snd g) s)) \<and>
         (case fst g of
            Inl thrown \<Rightarrow> fst (autoAbortExpiredRequest exec R arg w) = Inl thrown
          | Inr ra \<Rightarrow>
              fst (autoAbortExpiredRequest exec R arg w) = Inr (next_prom (snd g)) \<and>
              (\<not> aborted (sigs (snd g) s) \<longrightarrow>
                 RequestCalled ra \<in> set (events_of_call exec R arg w) \<and>
                 (fst (R ra) = [] \<longrightarrow>
                    \<not> aborted (sigs w' s) \<and>
                    proms w' (next_prom (snd g)) =
                      (case snd (R ra) of Throws e \<Rightarrow> Rejected e | ReturnsPromise \<Rightarrow> Pending)))) \<and>
         (quiet R arg s \<longrightarrow> \<not> aborted (sigs w' s))"
proof -
  have ok: "exec_ok exec"
    unfolding exec_def by (rule exec_ok_nested)
  have c: "coordinator_ok w"
    unfolding w_def using coordinator_ok_created by (rule coordinator_ok_run)
  have fresh: "cleanup w \<noteq> Some (next_sig w)"
    using c by (rule coordinator_ok_fresh)
  have s: "s = next_sig w"
    by (simp add: s_def)
  have 1: "\<not> aborted (sigs (snd (createAbortAbleRequest w)) s)"
    by (simp add: s)
  have 2: "\<not> aborted (sigs (before_getArg w) s)"
    using fresh by (simp add: s before_getArg_aborted)
  have 3: "\<not> aborted (sigs (snd g) s)" if q: "builder_actions arg s = []"
    using 2 getArg_fst_quiet [OF ok q, of "before_getArg w"] by (simp add: g_def)
  have 5: "\<not> aborted (sigs w' s)" if "quiet R arg s"
    using call_quiet(3) [OF ok c, of R arg] that by (simp add: w'_def s)
  have 4: "(case fst g of
            Inl thrown \<Rightarrow> fst (autoAbortExpiredRequest exec R arg w) = Inl thrown
          | Inr ra \<Rightarrow>
              fst (autoAbortExpiredRequest exec R arg w) = Inr (next_prom (snd g)) \<and>
              (\<not> aborted (sigs (snd g) s) \<longrightarrow>
                 RequestCalled ra \<in> set (events_of_call exec R arg w) \<and>
                 (fst (R ra) = [] \<longrightarrow>
                    \<not> aborted (sigs w' s) \<and>
                    proms w' (next_prom (snd g)) =
                      (case snd (R ra) of Throws e \<Rightarrow> Rejected e | ReturnsPromise \<Rightarrow> Pending))))"
  proof (cases "fst g")
    case (Inl thrown)
    then show ?thesis
      by (simp add: call_fst g_def s)
  next
    case (Inr ra)
    have r: "fst (autoAbortExpiredRequest exec R arg w) = Inr (next_prom (snd g))"
      using Inr by (simp add: call_fst g_def s)
    have w': "w' = snd (fun_call exec R s ra (snd g))"
      using Inr by (simp add: w'_def call_snd g_def s)
    have a: "RequestCalled ra \<in> set (events_of_call exec R arg w)"
      if live: "\<not> aborted (sigs (snd g) s)"
    proof -
      obtain bs rs where "events_of_call exec R arg w =
           Constructed (next_sig w) #
           (case cleanup w of None \<Rightarrow> [] | Some c \<Rightarrow> [AbortCalled c]) @
           CleanupAssigned (next_sig w) #
           (if is_function (arg0 arg) \<and> length arg = 1 then BuilderCalled (next_sig w) # bs else []) @
           (case fst (getArg exec (next_sig w) arg (before_getArg w)) of
              Inl e \<Rightarrow> []
            | Inr ra \<Rightarrow> Invoked (next_sig w) ra #
                (if aborted (sigs (snd (getArg exec (next_sig w) arg (before_getArg w))) (next_sig w))
                 then [] else RequestCalled ra # rs))"
        using events_of_call_shape [OF ok] by blast
      then show ?thesis
        using Inr live by (simp add: g_def s)
    qed
    have b: "\<not> aborted (sigs w' s) \<and>
             proms w' (next_prom (snd g)) =
               (case snd (R ra) of Throws e \<Rightarrow> Rejected e | ReturnsPromise \<Rightarrow> Pending)"
      if live: "\<not> aborted (sigs (snd g) s)" and q: "fst (R ra) = []"
      using fun_call_quiet [of exec "snd g" s R ra, OF ok live q] live
      by (cases "snd (R ra)") (simp_all add: w' reject_def settle_promise_def)
    show ?thesis
      using r a b by (simp add: Inr)
  qed
  show ?thesis
    using 1 2 3 4 5 by blast
qed

theorem every_call_starts_unaborted_witness:
  "builder_actions [JFun ''argFun'' withSignal] 2 = [] \<and>
   quiet getDataAPI [JFun ''argFun'' withSignal] 2 \<and>
   aborted (sigs (run (Suc 0) getDataAPI
             [Call [JFun ''argFun'' abortingBuilder], Call [JNum 2], CoordAbort, CoordAbort]
             (createAutoAbortExpiredRequest empty_heap)) 0) \<and>
   aborted (sigs (run (Suc 0) getDataAPI
             [Call [JFun ''argFun'' abortingBuilder], Call [JNum 2], CoordAbort, CoordAbort]
             (createAutoAbortExpiredRequest empty_heap)) 1) \<and>
   \<not> aborted (sigs (before_getArg (run (Suc 0) getDataAPI
             [Call [JFun ''argFun'' abortingBuilder], Call [JNum 2], CoordAbort, CoordAbort]
             (createAutoAbortExpiredRequest empty_heap))) 2) \<and>
   \<not> aborted (sigs (snd (autoAbortExpiredRequest (nested (Suc 0) getDataAPI) getDataAPI
        [JFun ''argFun'' withSignal]
        (run (Suc 0) getDataAPI
             [Call [JFun ''argFun'' abortingBuilder], Call [JNum 2], CoordAbort, CoordAbort]
             (createAutoAbortExpiredRequest empty_heap)))) 2) \<and>
   fst (autoAbortExpiredRequest (nested (Suc 0) getDataAPI) getDataAPI
        [JFun ''argFun'' withSignal]
        (run (Suc 0) getDataAPI
             [Call [JFun ''argFun'' abortingBuilder], Call [JNum 2], CoordAbort, CoordAbort]
             (createAutoAbortExpiredRequest empty_heap))) = Inr 2 \<and>
   proms (snd (autoAbortExpiredRequest (nested (Suc 0) getDataAPI) getDataAPI
        [JFun ''argFun'' withSignal]
        (run (Suc 0) getDataAPI
             [Call [JFun ''argFun'' abortingBuilder], Call [JNum 2], CoordAbort, CoordAbort]
             (createAutoAbortExpiredRequest empty_heap)))) 2 = Pending \<and>
   RequestCalled [JObj [(''signal'', JSignal 2)]]
     \<in> set (events_of_call (nested (Suc 0) getDataAPI) getDataAPI [JFun ''argFun'' withSignal]
        (run (Suc 0) getDataAPI
             [Call [JFun ''argFun'' abortingBuilder], Call [JNum 2], CoordAbort, CoordAbort]
             (createAutoAbortExpiredRequest empty_heap)))"
proof -
  let ?acts = "[Call [JFun ''argFun'' abortingBuilder], Call [JNum 2], CoordAbort, CoordAbort]"
  let ?w = "run (Suc 0) getDataAPI ?acts (createAutoAbortExpiredRequest empty_heap)"
  let ?b = "[JFun ''argFun'' withSignal]"
  let ?g = "getArg (nested (Suc 0) getDataAPI) 2 ?b (before_getArg ?w)"
  have s: "fst (createAbortAbleRequest ?w) = 2"
    by (simp add: model_defs)
  have ba: "builder_actions ?b 2 = []" and q: "quiet getDataAPI ?b 2"
    by (simp_all add: model_defs)
  have old: "aborted (sigs ?w 0)" "aborted (sigs ?w 1)"
    by (simp_all add: model_defs)
  have g: "fst ?g = Inr [JObj [(''signal'', JSignal 2)]]"
    by (simp add: model_defs)
  have r: "fst (getDataAPI [JObj [(''signal'', JSignal 2)]]) = []"
    "snd (getDataAPI [JObj [(''signal'', JSignal 2)]]) = ReturnsPromise"
    by (simp_all add: getDataAPI_def)
  have np: "next_prom (snd ?g) = 2"
    by (simp add: model_defs)
  note t = every_call_starts_unaborted
             [where R = getDataAPI and n = "Suc 0" and acts = ?acts and h = empty_heap and arg = ?b,
              unfolded s]
  have 2: "\<not> aborted (sigs (before_getArg ?w) 2)"
    using t by blast
  have 3: "\<not> aborted (sigs (snd ?g) 2)"
    using t ba by blast
  have 5: "\<not> aborted (sigs (snd (autoAbortExpiredRequest (nested (Suc 0) getDataAPI) getDataAPI ?b ?w)) 2)"
    using t q by blast
  have 4: "fst (autoAbortExpiredRequest (nested (Suc 0) getDataAPI) getDataAPI ?b ?w) = Inr 2 \<and>
           RequestCalled [JObj [(''signal'', JSignal 2)]]
             \<in> set (events_of_call (nested (Suc 0) getDataAPI) getDataAPI ?b ?w) \<and>
           proms (snd (autoAbortExpiredRequest (nested (Suc 0) getDataAPI) getDataAPI ?b ?w)) 2 = Pending"
    using t [THEN conjunct2, THEN conjunct2, THEN conjunct2, THEN conjunct1] 3
    unfolding g np by (simp del: nested.simps add: r)
  show ?thesis
    using ba q old 2 5 4 by blast
qed

text \<open>A call whose own builder calls \<^verbatim>\<open>c.abort()\<close> aborts the token it was given: the
  token is the recorded one by then. The call after it starts afresh.\<close>

lemma builder_aborts_its_token_only:
  "aborted (sigs (snd (getArg (nested (Suc 0) getDataAPI) 0 [JFun ''argFun'' abortingBuilder]
      (before_getArg (createAutoAbortExpiredRequest empty_heap)))) 0) \<and>
   \<not> aborted (sigs (snd (autoAbortExpiredRequest (nested (Suc 0) getDataAPI) getDataAPI [JNum 2]
      (snd (autoAbortExpiredRequest (nested (Suc 0) getDataAPI) getDataAPI
              [JFun ''argFun'' abortingBuilder] (createAutoAbortExpiredRequest empty_heap))))) 1) \<and>
   proms (snd (autoAbortExpiredRequest (nested (Suc 0) getDataAPI) getDataAPI [JNum 2]
      (snd (autoAbortExpiredRequest (nested (Suc 0) getDataAPI) getDataAPI
              [JFun ''argFun'' abortingBuilder] (createAutoAbortExpiredRequest empty_heap))))) 1
     = Pending"
  by (simp add: model_defs)

section \<open>abort on the coordinator\<close>

text \<open>
  C3. On a coordinator that was never called, \<^verbatim>\<open>abort\<close> calls the undefined
  \<^verbatim>\<open>cleanup\<close> and throws a TypeError.
\<close>

theorem abort_before_first_call_throws:
  "autoAbortExpiredRequest_abort (createAutoAbortExpiredRequest empty_heap) =
     (Inl typeError, createAutoAbortExpiredRequest empty_heap)"
  by (simp add: autoAbortExpiredRequest_abort_def createAutoAbortExpiredRequest_def)

text \<open>Once a call was made, \<^verbatim>\<open>abort\<close> returns normally, whether or not the current
  future has settled.\<close>

lemma abort_after_a_call_returns:
  "fst (autoAbortExpiredRequest_abort (snd (autoAbortExpiredRequest (nested n R) R arg w))) = Inr ()"
  using defined_call [OF exec_ok_nested, of n R R arg w]
  by (auto simp add: autoAbortExpiredRequest_abort_def split: option.splits)

section \<open>The classifier\<close>

lemma strict_eq_str_iff: "strict_eq_str v t \<longleftrightarrow> v = JStr t"
  by (cases v) auto

text \<open>
  C2. On every value other than \<^verbatim>\<open>null\<close> and \<^verbatim>\<open>undefined\<close>, \<^verbatim>\<open>isAbortError\<close> returns
  without throwing, and it returns true exactly when the \<^verbatim>\<open>name\<close> property of the value
  is the string \<^verbatim>\<open>'AbortError'\<close>; on \<^verbatim>\<open>null\<close> and \<^verbatim>\<open>undefined\<close> it throws a TypeError.
\<close>

theorem isAbortError_classifies:
  "isAbortError error =
     (if error = Null \<or> error = Undefined then Inl typeError
      else Inr (get_name error = Inr (JStr ''AbortError'')))"
proof (cases error)
  case (JObj ps)
  then show ?thesis
    by (cases "map_of ps ''name''") (simp_all add: isAbortError_def strict_eq_str_iff)
qed (simp_all add: isAbortError_def)

theorem isAbortError_classifies_witness:
  "isAbortError abortError = Inr True \<and>
   isAbortError (JObj [(''name'', JStr ''TypeError''), (''message'', JStr ''fetch failed'')]) = Inr False \<and>
   isAbortError (JNum 404) = Inr False \<and>
   isAbortError (JStr ''AbortError'') = Inr False \<and>
   isAbortError (JObj []) = Inr False \<and>
   isAbortError Undefined = Inl typeError"
  using isAbortError_classifies [of abortError]
    isAbortError_classifies [of "JObj [(''name'', JStr ''TypeError''), (''message'', JStr ''fetch failed'')]"]
    isAbortError_classifies [of "JNum 404"] isAbortError_classifies [of "JStr ''AbortError''"]
    isAbortError_classifies [of "JObj []"] isAbortError_classifies [of Undefined]
  by (simp add: abortError_def)

text \<open>On \<^verbatim>\<open>null\<close> the property read throws.\<close>

theorem isAbortError_throws_on_null: "isAbortError Null = Inl typeError"
  by (simp add: isAbortError_def)

end
